theory Spec2Isabelle
  imports Main "HOL-Library.Word" "HOL-Library.Sublist"
begin

section \<open>JavaScript strings\<close>

text \<open>
  A JavaScript string is a sequence of 16-bit code units. String literals of the
  source are ASCII and are written with \<open>js\<close>; a template literal of several lines
  is written with \<open>js_lines\<close>, every line followed by a line feed.
\<close>

type_synonym code_unit = "16 word"
type_synonym jsstring = "code_unit list"

definition js :: "string \<Rightarrow> jsstring" where
  "js s = map (\<lambda>c. word_of_nat (of_char c)) s"

definition LF :: code_unit where
  "LF = 0x0A"

definition js_lines :: "string list \<Rightarrow> jsstring" where
  "js_lines ls = concat (map (\<lambda>l. js l @ [LF]) ls)"

text \<open>
  \<open>String.prototype.trim\<close> removes the WhiteSpace and LineTerminator code units of
  ECMAScript from both ends.
\<close>

definition is_js_space :: "code_unit \<Rightarrow> bool" where
  "is_js_space u \<longleftrightarrow>
     u = 0x09 \<or> u = 0x0A \<or> u = 0x0B \<or> u = 0x0C \<or> u = 0x0D \<or> u = 0x20 \<or> u = 0xA0
     \<or> u = 0x1680 \<or> (0x2000 \<le> u \<and> u \<le> 0x200A) \<or> u = 0x2028 \<or> u = 0x2029
     \<or> u = 0x202F \<or> u = 0x205F \<or> u = 0x3000 \<or> u = 0xFEFF"

definition trim :: "jsstring \<Rightarrow> jsstring" where
  "trim s = rev (dropWhile is_js_space (rev (dropWhile is_js_space s)))"

text \<open>
  \<open>text.indexOf(pat)\<close>: the index of the first occurrence of \<open>pat\<close>, or \<open>-1\<close>.
\<close>

fun indexOf_from :: "'a list \<Rightarrow> 'a list \<Rightarrow> nat \<Rightarrow> int" where
  "indexOf_from [] pat k = (if pat = [] then int k else - 1)"
| "indexOf_from (x # xs) pat k =
     (if prefix pat (x # xs) then int k else indexOf_from xs pat (Suc k))"

definition indexOf :: "'a list \<Rightarrow> 'a list \<Rightarrow> int" where
  "indexOf text pat = indexOf_from text pat 0"

text \<open>
  \<open>s.slice(start, end)\<close> and \<open>s.slice(start)\<close>: a negative index counts from the
  end, every index is clamped to the string.
\<close>

definition clamp_index :: "nat \<Rightarrow> int \<Rightarrow> nat" where
  "clamp_index len i = (if i < 0 then nat (max (int len + i) 0) else min (nat i) len)"

definition slice :: "'a list \<Rightarrow> int \<Rightarrow> int \<Rightarrow> 'a list" where
  "slice s start fin =
     (let from = clamp_index (length s) start; to = clamp_index (length s) fin
      in take (to - from) (drop from s))"

definition slice_from :: "'a list \<Rightarrow> int \<Rightarrow> 'a list" where
  "slice_from s start = drop (clamp_index (length s) start) s"

section \<open>The default shader (CustomShaderExtension.ts)\<close>

definition apply_transparent_color :: jsstring where
  "apply_transparent_color = js_lines
     [''vec4 apply_transparent_color(vec3 color, vec3 transparentColor, bool useTransparentColor, float opacity){'',
      ''  return vec4(color, (color == transparentColor && useTransparentColor) ? 0. : opacity);'',
      ''}'']"

definition fs :: jsstring where
  "fs = js_lines
     [''uniform vec3 transparentColor;'',
      ''uniform bool useTransparentColor;'',
      ''uniform float opacity;'',
      '''',
      ''uniform vec3 colors[6];'',
      '''']
    @ apply_transparent_color
    @ js_lines
     ['''',
      '''',
      ''// linearize '',
      '''',
      ''void mutate_color(inout vec3 rgb, float intensity0, float intensity1, float intensity2, float intensity3, float intensity4, float intensity5) { '',
      ''  rgb += max(0.0, min(1.0, intensity0)) * vec3(colors[0]);'',
      ''  rgb += max(0.0, min(1.0, intensity1)) * vec3(colors[1]);'',
      ''  rgb += max(0.0, min(1.0, intensity2)) * vec3(colors[2]);'',
      ''  rgb += max(0.0, min(1.0, intensity3)) * vec3(colors[3]);'',
      ''  rgb += max(0.0, min(1.0, intensity4)) * vec3(colors[4]);'',
      ''  rgb += max(0.0, min(1.0, intensity5)) * vec3(colors[5]);'',
      ''}'',
      '''',
      ''vec4 apply_opacity(vec3 rgb) {'',
      ''  return vec4(apply_transparent_color(rgb, transparentColor, useTransparentColor, opacity));'',
      ''}'']"

definition DECKGL_MUTATE_COLOR :: jsstring where
  "DECKGL_MUTATE_COLOR = js_lines
     [''vec3 rgb = rgba.rgb;'',
      ''mutate_color(rgb, intensity0, intensity1, intensity2, intensity3, intensity4, intensity5);'',
      ''rgba = apply_opacity(rgb);'']"

definition defaultFragmentShader :: jsstring where
  "defaultFragmentShader = fs"

definition defaultMutateColorCode :: jsstring where
  "defaultMutateColorCode = DECKGL_MUTATE_COLOR"

text \<open>
  The exported constant \<open>fragmentShader\<close>, the full text shown in the editor. (The name
  \<open>fragmentShader\<close> itself is the field of the record below.)
\<close>

definition fragmentShader_text :: jsstring where
  "fragmentShader_text = fs @ [LF, LF] @ js ''// Injection point:'' @ [LF] @ DECKGL_MUTATE_COLOR"

section \<open>Splitting the shader text (App.tsx)\<close>

definition INJECTION_MARKER :: jsstring where
  "INJECTION_MARKER = js ''// Injection point:''"

record shader_program =
  fragmentShader :: jsstring
  mutateColorCode :: jsstring

definition parseShader :: "jsstring \<Rightarrow> shader_program" where
  "parseShader text =
     (let idx = indexOf text INJECTION_MARKER
      in if idx = - 1
         then \<lparr>fragmentShader = trim text, mutateColorCode = defaultMutateColorCode\<rparr>
         else \<lparr>fragmentShader = trim (slice text 0 idx),
               mutateColorCode = trim (slice_from text (idx + int (length INJECTION_MARKER)))\<rparr>)"

text \<open>
  The positions at which \<open>pat\<close> occurs in \<open>text\<close>, in increasing order. A text
  contains the marker exactly once when this list has one element.
\<close>

definition occurrences :: "'a list \<Rightarrow> 'a list \<Rightarrow> nat list" where
  "occurrences pat text = filter (\<lambda>i. prefix pat (drop i text)) [0..<Suc (length text)]"

text \<open>
  Modelled from the spec: \<open>join\<close>, which the source has only as the constant expression
  that builds the exported full text (CustomShaderExtension.ts, line 130): the template
  part, two line feeds, the marker, one line feed, the injection part.
\<close>

definition join :: "shader_program \<Rightarrow> jsstring" where
  "join p = fragmentShader p @ [LF, LF] @ INJECTION_MARKER @ [LF] @ mutateColorCode p"

text \<open>A string that \<open>trim\<close> leaves as it is.\<close>

definition trimmed :: "jsstring \<Rightarrow> bool" where
  "trimmed s \<longleftrightarrow> s = [] \<or> (\<not> is_js_space (hd s) \<and> \<not> is_js_space (last s))"

section \<open>The platform's text and base64 functions\<close>

text \<open>
  The codec of App.tsx calls \<open>TextEncoder\<close>, \<open>TextDecoder\<close>, \<open>btoa\<close> and \<open>atob\<close>
  of the browser. They are modelled after the WHATWG Encoding Standard (UTF-8 encoder
  and decoder, error mode replacement, byte order mark removed), Web IDL (conversion of
  a string to scalar values) and the forgiving-base64 functions of the WHATWG Infra
  Standard. Code points are natural numbers, bytes are 8-bit words.
\<close>

type_synonym byte = "8 word"

datatype js_error = InvalidCharacterError

definition is_lead_surrogate :: "code_unit \<Rightarrow> bool" where
  "is_lead_surrogate u \<longleftrightarrow> 0xD800 \<le> u \<and> u \<le> 0xDBFF"

definition is_trail_surrogate :: "code_unit \<Rightarrow> bool" where
  "is_trail_surrogate u \<longleftrightarrow> 0xDC00 \<le> u \<and> u \<le> 0xDFFF"

definition REPLACEMENT :: nat where
  "REPLACEMENT = 0xFFFD"

text \<open>
  A string as scalar values: a surrogate pair is one code point, a surrogate that is
  not part of a pair becomes U+FFFD.
\<close>

fun to_scalar_values :: "jsstring \<Rightarrow> nat list" where
  "to_scalar_values [] = []"
| "to_scalar_values [u] =
     (if is_lead_surrogate u \<or> is_trail_surrogate u then [REPLACEMENT] else [unat u])"
| "to_scalar_values (u # v # r) =
     (if is_lead_surrogate u \<and> is_trail_surrogate v
      then (0x10000 + (unat u - 0xD800) * 0x400 + (unat v - 0xDC00)) # to_scalar_values r
      else if is_lead_surrogate u \<or> is_trail_surrogate u
      then REPLACEMENT # to_scalar_values (v # r)
      else unat u # to_scalar_values (v # r))"

definition utf8_encode_code_point :: "nat \<Rightarrow> byte list" where
  "utf8_encode_code_point c =
     (if c \<le> 0x7F then [word_of_nat c]
      else if c \<le> 0x7FF then [word_of_nat (0xC0 + c div 64), word_of_nat (0x80 + c mod 64)]
      else if c \<le> 0xFFFF then
        [word_of_nat (0xE0 + c div 4096), word_of_nat (0x80 + c div 64 mod 64),
         word_of_nat (0x80 + c mod 64)]
      else
        [word_of_nat (0xF0 + c div 262144), word_of_nat (0x80 + c div 4096 mod 64),
         word_of_nat (0x80 + c div 64 mod 64), word_of_nat (0x80 + c mod 64)])"

definition TextEncoder_encode :: "jsstring \<Rightarrow> byte list" where
  "TextEncoder_encode s = concat (map utf8_encode_code_point (to_scalar_values s))"

text \<open>
  The UTF-8 decoder of the Encoding Standard: the code point being built, the bytes
  seen and needed, and the bounds of the next byte. An ill-formed sequence gives
  U+FFFD, and the byte that ended it is read again.
\<close>

fun utf8_decoder :: "nat \<Rightarrow> nat \<Rightarrow> nat \<Rightarrow> nat \<Rightarrow> nat \<Rightarrow> byte list \<Rightarrow> nat list" where
  "utf8_decoder cp seen needed lower upper [] = (if needed \<noteq> 0 then [REPLACEMENT] else [])"
| "utf8_decoder cp seen needed lower upper (b # bs) =
     (let x = unat b in
      if needed = 0 then
        (if x \<le> 0x7F then x # utf8_decoder cp seen needed lower upper bs
         else if 0xC2 \<le> x \<and> x \<le> 0xDF then utf8_decoder (x mod 32) seen 1 lower upper bs
         else if 0xE0 \<le> x \<and> x \<le> 0xEF then
           utf8_decoder (x mod 16) seen 2
             (if x = 0xE0 then 0xA0 else lower) (if x = 0xED then 0x9F else upper) bs
         else if 0xF0 \<le> x \<and> x \<le> 0xF4 then
           utf8_decoder (x mod 8) seen 3
             (if x = 0xF0 then 0x90 else lower) (if x = 0xF4 then 0x8F else upper) bs
         else REPLACEMENT # utf8_decoder cp seen needed lower upper bs)
      else if \<not> (lower \<le> x \<and> x \<le> upper) then
        REPLACEMENT # utf8_decoder 0 0 0 0x80 0xBF (b # bs)
      else
        (let cp' = cp * 64 + x mod 64 in
         if Suc seen \<noteq> needed then utf8_decoder cp' (Suc seen) needed 0x80 0xBF bs
         else cp' # utf8_decoder 0 0 0 0x80 0xBF bs))"

text \<open>The decoder in its initial state.\<close>

abbreviation utf8_start :: "byte list \<Rightarrow> nat list" where
  "utf8_start bs \<equiv> utf8_decoder 0 0 0 0x80 0xBF bs"

definition utf8_decode :: "byte list \<Rightarrow> nat list" where
  "utf8_decode bs = utf8_decoder 0 0 0 0x80 0xBF bs"

definition from_code_point :: "nat \<Rightarrow> jsstring" where
  "from_code_point c =
     (if c < 0x10000 then [word_of_nat c]
      else [word_of_nat (0xD800 + (c - 0x10000) div 0x400),
            word_of_nat (0xDC00 + (c - 0x10000) mod 0x400)])"

definition strip_bom :: "nat list \<Rightarrow> nat list" where
  "strip_bom cs = (case cs of [] \<Rightarrow> [] | c # r \<Rightarrow> if c = 0xFEFF then r else c # r)"

definition TextDecoder_decode :: "byte list \<Rightarrow> jsstring" where
  "TextDecoder_decode bs = concat (map from_code_point (strip_bom (utf8_decode bs)))"

text \<open>\<open>String.fromCharCode\<close> of a byte, and the store of a code unit into a \<open>Uint8Array\<close>.\<close>

definition fromCharCode :: "byte \<Rightarrow> code_unit" where
  "fromCharCode b = ucast b"

definition to_uint8 :: "code_unit \<Rightarrow> byte" where
  "to_uint8 u = ucast u"

text \<open>The base64 alphabet: position to code unit and back.\<close>

definition base64_char :: "nat \<Rightarrow> code_unit" where
  "base64_char n =
     (if n < 26 then word_of_nat (0x41 + n)
      else if n < 52 then word_of_nat (0x61 + (n - 26))
      else if n < 62 then word_of_nat (0x30 + (n - 52))
      else if n = 62 then 0x2B
      else 0x2F)"

definition base64_index :: "code_unit \<Rightarrow> nat option" where
  "base64_index u =
     (if 0x41 \<le> u \<and> u \<le> 0x5A then Some (unat u - 0x41)
      else if 0x61 \<le> u \<and> u \<le> 0x7A then Some (unat u - 0x61 + 26)
      else if 0x30 \<le> u \<and> u \<le> 0x39 then Some (unat u - 0x30 + 52)
      else if u = 0x2B then Some 62
      else if u = 0x2F then Some 63
      else None)"

definition PAD :: code_unit where
  "PAD = 0x3D"

fun base64_encode :: "byte list \<Rightarrow> jsstring" where
  "base64_encode [] = []"
| "base64_encode [a] =
     [base64_char (unat a div 4), base64_char (unat a mod 4 * 16), PAD, PAD]"
| "base64_encode [a, b] =
     [base64_char (unat a div 4), base64_char (unat a mod 4 * 16 + unat b div 16),
      base64_char (unat b mod 16 * 4), PAD]"
| "base64_encode (a # b # c # r) =
     [base64_char (unat a div 4), base64_char (unat a mod 4 * 16 + unat b div 16),
      base64_char (unat b mod 16 * 4 + unat c div 64), base64_char (unat c mod 64)]
     @ base64_encode r"

text \<open>\<open>btoa\<close> throws when a code unit of its argument is above 0xFF.\<close>

definition btoa :: "jsstring \<Rightarrow> js_error + jsstring" where
  "btoa s =
     (if \<exists>u \<in> set s. 0xFF < u then Inl InvalidCharacterError
      else Inr (base64_encode (map to_uint8 s)))"

text \<open>
  Forgiving-base64 decode: ASCII whitespace is removed; when the length is a multiple
  of four, one or two padding characters are removed from the end; a length of one
  modulo four and any character outside the alphabet fail; a last group of two or
  three characters gives one or two bytes.
\<close>

definition is_ascii_whitespace :: "code_unit \<Rightarrow> bool" where
  "is_ascii_whitespace u \<longleftrightarrow> u = 0x09 \<or> u = 0x0A \<or> u = 0x0C \<or> u = 0x0D \<or> u = 0x20"

definition strip_padding :: "jsstring \<Rightarrow> jsstring" where
  "strip_padding d =
     (if length d mod 4 = 0 then
        (if suffix [PAD, PAD] d then take (length d - 2) d
         else if suffix [PAD] d then take (length d - 1) d
         else d)
      else d)"

fun base64_decode_groups :: "nat list \<Rightarrow> byte list" where
  "base64_decode_groups (a # b # c # d # r) =
     [word_of_nat (a * 4 + b div 16), word_of_nat (b mod 16 * 16 + c div 4),
      word_of_nat (c mod 4 * 64 + d)] @ base64_decode_groups r"
| "base64_decode_groups [a, b, c] =
     [word_of_nat (a * 4 + b div 16), word_of_nat (b mod 16 * 16 + c div 4)]"
| "base64_decode_groups [a, b] = [word_of_nat (a * 4 + b div 16)]"
| "base64_decode_groups [a] = []"
| "base64_decode_groups [] = []"

fun indices :: "jsstring \<Rightarrow> nat list option" where
  "indices [] = Some []"
| "indices (u # r) =
     (case base64_index u of None \<Rightarrow> None
      | Some n \<Rightarrow> (case indices r of None \<Rightarrow> None | Some ns \<Rightarrow> Some (n # ns)))"

definition atob :: "jsstring \<Rightarrow> js_error + jsstring" where
  "atob s =
     (let d = strip_padding (filter (\<lambda>u. \<not> is_ascii_whitespace u) s)
      in if length d mod 4 = 1 then Inl InvalidCharacterError
         else (case indices d of
                 None \<Rightarrow> Inl InvalidCharacterError
               | Some ns \<Rightarrow> Inr (map fromCharCode (base64_decode_groups ns))))"

text \<open>\<open>s.replace(/a/g, 'b')\<close> for single characters \<open>a\<close> and \<open>b\<close>.\<close>

definition replace_all :: "code_unit \<Rightarrow> code_unit \<Rightarrow> jsstring \<Rightarrow> jsstring" where
  "replace_all a b s = map (\<lambda>u. if u = a then b else u) s"

section \<open>The URL state codec (App.tsx)\<close>

text \<open>
  \<open>getShaderFromUrl\<close> reads \<open>window.location.hash\<close>, which is its argument here. The
  \<open>try\<close> block turns the exception of \<open>atob\<close> into \<open>null\<close>.
\<close>

definition getShaderFromUrl :: "jsstring \<Rightarrow> jsstring option" where
  "getShaderFromUrl location_hash =
     (let hash = slice_from location_hash 1
      in if hash = [] then None
         else (let base64 = replace_all 0x5F 0x2F (replace_all 0x2D 0x2B hash)
               in case atob base64 of
                    Inl e \<Rightarrow> None
                  | Inr binary \<Rightarrow> Some (TextDecoder_decode (map to_uint8 binary))))"

definition encodeShaderForUrl :: "jsstring \<Rightarrow> js_error + jsstring" where
  "encodeShaderForUrl shader =
     (let bytes = TextEncoder_encode shader;
          binary = map fromCharCode bytes
      in case btoa binary of
           Inl e \<Rightarrow> Inl e
         | Inr b \<Rightarrow> Inr (replace_all 0x2F 0x5F (replace_all 0x2B 0x2D b)))"

text \<open>
  The getter of \<open>window.location.hash\<close>: empty for an empty fragment, else \<open>#\<close> and
  the fragment.
\<close>

definition location_hash_of :: "jsstring \<Rightarrow> jsstring" where
  "location_hash_of fragment = (if fragment = [] then [] else 0x23 # fragment)"

text \<open>Strings without unpaired surrogates.\<close>

fun well_formed_utf16 :: "jsstring \<Rightarrow> bool" where
  "well_formed_utf16 [] = True"
| "well_formed_utf16 [u] = (\<not> is_lead_surrogate u \<and> \<not> is_trail_surrogate u)"
| "well_formed_utf16 (u # v # r) =
     (if is_lead_surrogate u \<and> is_trail_surrogate v then well_formed_utf16 r
      else \<not> is_lead_surrogate u \<and> \<not> is_trail_surrogate u \<and> well_formed_utf16 (v # r))"

text \<open>
  The 6-bit groups of a byte sequence: \<open>base64_encode\<close> is their characters followed
  by the padding.
\<close>

fun sextets :: "byte list \<Rightarrow> nat list" where
  "sextets [] = []"
| "sextets [a] = [unat a div 4, unat a mod 4 * 16]"
| "sextets [a, b] = [unat a div 4, unat a mod 4 * 16 + unat b div 16, unat b mod 16 * 4]"
| "sextets (a # b # c # r) =
     [unat a div 4, unat a mod 4 * 16 + unat b div 16, unat b mod 16 * 4 + unat c div 64,
      unat c mod 64] @ sextets r"

definition padding :: "byte list \<Rightarrow> jsstring" where
  "padding bs = replicate ((3 - length bs mod 3) mod 3) PAD"

text \<open>Unicode scalar values: the code points that are not surrogates.\<close>

definition is_scalar_value :: "nat \<Rightarrow> bool" where
  "is_scalar_value c \<longleftrightarrow> c < 0x110000 \<and> \<not> (0xD800 \<le> c \<and> c \<le> 0xDFFF)"

text \<open>
  The alphabet of base64url (RFC 4648, section 5), which the specification names for
  the token: letters, digits, \<open>-\<close> and \<open>_\<close>.
\<close>

definition is_base64url_char :: "code_unit \<Rightarrow> bool" where
  "is_base64url_char u \<longleftrightarrow>
     (0x41 \<le> u \<and> u \<le> 0x5A) \<or> (0x61 \<le> u \<and> u \<le> 0x7A) \<or> (0x30 \<le> u \<and> u \<le> 0x39)
     \<or> u = 0x2D \<or> u = 0x5F"

text \<open>
  The characters that \<open>getShaderFromUrl\<close> can accept in a token: those of base64url,
  the \<open>+\<close> and \<open>/\<close> of plain base64, the padding and ASCII whitespace.
\<close>

definition is_accepted_char :: "code_unit \<Rightarrow> bool" where
  "is_accepted_char u \<longleftrightarrow>
     is_base64url_char u \<or> u = 0x2B \<or> u = 0x2F \<or> u = PAD \<or> is_ascii_whitespace u"

text \<open>
  The token that \<open>getShaderFromUrl\<close> hands to \<open>atob\<close>: the hash without its first
  character, after the substitution.
\<close>

definition base64_of_hash :: "jsstring \<Rightarrow> jsstring" where
  "base64_of_hash location_hash =
     replace_all 0x5F 0x2F (replace_all 0x2D 0x2B (slice_from location_hash 1))"

text \<open>Bytes are valid UTF-8 when they are the encoding of what they decode to.\<close>

definition valid_utf8 :: "byte list \<Rightarrow> bool" where
  "valid_utf8 bs \<longleftrightarrow> concat (map utf8_encode_code_point (utf8_decode bs)) = bs"

section \<open>The shader extension (CustomShaderExtension.ts)\<close>

text \<open>
  The props that a layer hands to the extension: \<open>None\<close> is a prop that was not
  passed. \<open>getShaders\<close> resolves them with \<open>||\<close>, so that a missing prop and an empty
  string both give the default. The module name (a hash of the two strings) is left out.
\<close>

record layer_props =
  prop_fragmentShader :: "jsstring option"
  prop_mutateColorCode :: "jsstring option"

record shader_module =
  module_fs :: jsstring
  module_inject :: jsstring

definition or_default :: "jsstring option \<Rightarrow> jsstring \<Rightarrow> jsstring" where
  "or_default v d = (case v of None \<Rightarrow> d | Some s \<Rightarrow> if s = [] then d else s)"

definition getShaders :: "layer_props \<Rightarrow> shader_module" where
  "getShaders props =
     (let shaderCode = or_default (prop_fragmentShader props) fs;
          mutateCode = or_default (prop_mutateColorCode props) DECKGL_MUTATE_COLOR
      in \<lparr>module_fs = shaderCode, module_inject = mutateCode\<rparr>)"

text \<open>
  Modelled from the spec: \<open>padColors\<close> of \<open>./utils\<close>, which is not among the sources.
  Position \<open>i\<close> of the six is visible when the mask has a true entry at \<open>i\<close>; a visible
  position takes the supplied colour at \<open>i\<close>, or the entry \<open>i\<close> of the default palette
  when no colour is supplied there; every other position is black. The palette itself
  is a parameter.
\<close>

type_synonym rgb = "nat \<times> nat \<times> nat"

definition black :: rgb where
  "black = (0, 0, 0)"

definition MAX_CHANNELS :: nat where
  "MAX_CHANNELS = 6"

fun pad_from :: "(nat \<Rightarrow> rgb) \<Rightarrow> nat \<Rightarrow> nat \<Rightarrow> rgb list \<Rightarrow> bool list \<Rightarrow> rgb list" where
  "pad_from palette i 0 colors visible = []"
| "pad_from palette i (Suc n) colors visible =
     (case visible of
        [] \<Rightarrow> black
      | v # _ \<Rightarrow> if v then (case colors of [] \<Rightarrow> palette i | c # _ \<Rightarrow> c) else black)
     # pad_from palette (Suc i) n (tl colors) (tl visible)"

definition padColors :: "(nat \<Rightarrow> rgb) \<Rightarrow> rgb list \<Rightarrow> bool list \<Rightarrow> rgb list" where
  "padColors palette colors channelsVisible = pad_from palette 0 MAX_CHANNELS colors channelsVisible"

text \<open>
  The colours that \<open>draw\<close> puts into the uniforms: \<open>colors\<close> and \<open>channelsVisible\<close>
  are props that may be missing, \<open>selections\<close> is the number of selections when that
  prop is there. \<open>getDefaultPalette\<close>, the other function of \<open>./utils\<close>, is a
  parameter.
\<close>

definition draw_paddedColors ::
  "(nat \<Rightarrow> rgb) \<Rightarrow> (nat \<Rightarrow> rgb list) \<Rightarrow> rgb list option \<Rightarrow> bool list option \<Rightarrow> nat option
     \<Rightarrow> rgb list" where
  "draw_paddedColors palette getDefaultPalette colors channelsVisible selections =
     padColors palette
       (case colors of
          Some c \<Rightarrow> c
        | None \<Rightarrow> getDefaultPalette (case selections of None \<Rightarrow> 1 | Some n \<Rightarrow> if n = 0 then 1 else n))
       (case channelsVisible of
          Some v \<Rightarrow> v
        | None \<Rightarrow> (case selections of None \<Rightarrow> [] | Some n \<Rightarrow> replicate n True))"

section \<open>The page (main.tsx and App.tsx)\<close>

text \<open>
  \<open>window.location\<close>: the getter of \<open>hash\<close> is \<open>location_hash_of\<close> of the fragment;
  the setter removes one leading \<open>#\<close> of the value.
\<close>

record location =
  origin :: jsstring
  pathname :: jsstring
  search :: jsstring
  fragment :: jsstring

definition location_hash :: "location \<Rightarrow> jsstring" where
  "location_hash l = location_hash_of (fragment l)"

definition set_location_hash :: "jsstring \<Rightarrow> location \<Rightarrow> location" where
  "set_location_hash v l =
     l\<lparr>fragment := (case v of [] \<Rightarrow> [] | c # r \<Rightarrow> if c = 0x23 then r else c # r)\<rparr>"

text \<open>
  The template string \<open>origin + pathname + search + '#' + encoded\<close> of \<open>App\<close> and of
  \<open>handleCopyLink\<close>.
\<close>

definition url_with_fragment :: "location \<Rightarrow> jsstring \<Rightarrow> jsstring" where
  "url_with_fragment l encoded = origin l @ pathname l @ search l @ [0x23] @ encoded"

text \<open>
  \<open>window.location.replace\<close> with that string: the new address differs from the
  current one in the fragment only, so the browser moves to the fragment and does not
  load the document again (as the comment in main.tsx says of hash-only changes).
\<close>

definition location_replace_fragment :: "jsstring \<Rightarrow> location \<Rightarrow> location" where
  "location_replace_fragment encoded l = l\<lparr>fragment := encoded\<rparr>"

text \<open>
  The state of the \<open>App\<close> component: the edit buffer, the applied text, the error
  panel, whether the image data has arrived, and what the two panes are bound to once
  the render effect has created their layers.
\<close>

record app =
  shaderText :: jsstring
  appliedShader :: jsstring
  compileError :: "jsstring option"
  data_loaded :: bool
  baseline_pane :: "shader_module option"
  custom_pane :: "shader_module option"

text \<open>
  The page is loading its script, or shows the placeholder \<open>Loading\<close> (when
  \<open>shaderFromUrl\<close> is null), or shows the editor and the panes.
\<close>

datatype page = Booting | Placeholder | Mounted app

record browser =
  loc :: location
  reloads :: nat
  view :: page
  clipboard :: "jsstring option"

text \<open>What \<open>parse\<close> of the GLSL parser throws, and the message \<open>handleCompile\<close> shows.\<close>

datatype thrown = ErrorObject jsstring | OtherValue jsstring

definition thrown_message :: "thrown \<Rightarrow> jsstring" where
  "thrown_message e = (case e of ErrorObject message \<Rightarrow> message | OtherValue s \<Rightarrow> s)"

definition js_error_message :: "js_error \<Rightarrow> jsstring" where
  "js_error_message e = (case e of InvalidCharacterError \<Rightarrow> js ''InvalidCharacterError'')"

text \<open>
  The body of \<open>App\<close> at mount: \<open>shaderFromUrl\<close> is computed once; when it is null or
  empty the address is replaced and the placeholder is rendered.
\<close>

definition initial_app :: "jsstring \<Rightarrow> app" where
  "initial_app s =
     \<lparr>shaderText = s, appliedShader = s, compileError = None, data_loaded = False,
      baseline_pane = None, custom_pane = None\<rparr>"

definition redirect_to_default :: "browser \<Rightarrow> browser" where
  "redirect_to_default b =
     (case encodeShaderForUrl fragmentShader_text of
        Inl e \<Rightarrow> b
      | Inr encoded \<Rightarrow>
          b\<lparr>loc := location_replace_fragment encoded (loc b), view := Placeholder\<rparr>)"

definition App :: "browser \<Rightarrow> browser" where
  "App b =
     (case getShaderFromUrl (location_hash (loc b)) of
        None \<Rightarrow> redirect_to_default b
      | Some s \<Rightarrow>
          if s = [] then redirect_to_default b
          else b\<lparr>view := Mounted (initial_app s)\<rparr>)"

text \<open>
  The script of main.tsx, run at every load of the document: without a hash it sets
  the hash and reloads, which runs the script again; else it renders \<open>App\<close>.
  (Termination is proved below: the token of the default text is not empty.)
\<close>

function main :: "browser \<Rightarrow> browser" where
  "main b =
     (if location_hash (loc b) = [] then
        (case encodeShaderForUrl fragmentShader_text of
           Inl e \<Rightarrow> b
         | Inr encoded \<Rightarrow>
             main (b\<lparr>loc := set_location_hash encoded (loc b), reloads := Suc (reloads b),
                      view := Booting\<rparr>))
      else App b)"
  by pat_completeness auto

text \<open>
  The render effect (dependencies \<open>data\<close> and \<open>appliedShader\<close>): without data it
  returns; else it creates the baseline layer, whose extension gets no shader props,
  and the custom layer, whose props are the two parts of \<open>parseShader appliedShader\<close>.
\<close>

definition baseline_props :: layer_props where
  "baseline_props = \<lparr>prop_fragmentShader = None, prop_mutateColorCode = None\<rparr>"

definition custom_props :: "jsstring \<Rightarrow> layer_props" where
  "custom_props applied =
     (let p = parseShader applied
      in \<lparr>prop_fragmentShader = Some (fragmentShader p),
          prop_mutateColorCode = Some (mutateColorCode p)\<rparr>)"

definition render_effect :: "app \<Rightarrow> app" where
  "render_effect a =
     (if \<not> data_loaded a then a
      else a\<lparr>baseline_pane := Some (getShaders baseline_props),
             custom_pane := Some (getShaders (custom_props (appliedShader a)))\<rparr>)"

text \<open>
  \<open>handleCompile\<close>, with the GLSL parser as the parameter \<open>parse\<close>: \<open>None\<close> when
  the text parses, else what the parser throws.
\<close>

definition handleCompile :: "(jsstring \<Rightarrow> thrown option) \<Rightarrow> app \<Rightarrow> browser \<Rightarrow> browser" where
  "handleCompile parse a b =
     (let p = parseShader (shaderText a)
      in case parse (fragmentShader p) of
           Some e \<Rightarrow> b\<lparr>view := Mounted (a\<lparr>compileError := Some (thrown_message e)\<rparr>)\<rparr>
         | None \<Rightarrow>
             (case encodeShaderForUrl (shaderText a) of
                Inl e \<Rightarrow> b\<lparr>view := Mounted (a\<lparr>compileError := Some (js_error_message e)\<rparr>)\<rparr>
              | Inr encoded \<Rightarrow>
                  main (b\<lparr>loc := set_location_hash encoded (loc b),
                           reloads := Suc (reloads b), view := Booting\<rparr>)))"

definition handleCopyLink :: "app \<Rightarrow> browser \<Rightarrow> browser" where
  "handleCopyLink a b =
     (case encodeShaderForUrl (shaderText a) of
        Inl e \<Rightarrow> b
      | Inr encoded \<Rightarrow> b\<lparr>clipboard := Some (url_with_fragment (loc b) encoded)\<rparr>)"

text \<open>
  What can happen to a mounted page: the editor changes the buffer, a button is
  pressed, the image data arrives. The placeholder has no editor and no buttons.
\<close>

datatype event = Edit jsstring | Compile | CopyLink | DataLoaded

definition step :: "(jsstring \<Rightarrow> thrown option) \<Rightarrow> event \<Rightarrow> browser \<Rightarrow> browser" where
  "step parse ev b =
     (case view b of
        Mounted a \<Rightarrow>
          (case ev of
             Edit t \<Rightarrow> b\<lparr>view := Mounted (a\<lparr>shaderText := t\<rparr>)\<rparr>
           | Compile \<Rightarrow> handleCompile parse a b
           | CopyLink \<Rightarrow> handleCopyLink a b
           | DataLoaded \<Rightarrow> b\<lparr>view := Mounted (render_effect (a\<lparr>data_loaded := True\<rparr>))\<rparr>)
      | _ \<Rightarrow> b)"

text \<open>A visit: the document is loaded at some address and the script runs.\<close>

definition visit :: "location \<Rightarrow> jsstring option \<Rightarrow> browser" where
  "visit l c = main \<lparr>loc = l, reloads = 0, view = Booting, clipboard = c\<rparr>"





text \<open>Sample data: an address, a parser that accepts only the text \<open>ok\<close>, two pages.\<close>

definition sample_location :: "jsstring \<Rightarrow> location" where
  "sample_location f =
     \<lparr>origin = js ''https://example.org'', pathname = js ''/'', search = js ''?v=1'', fragment = f\<rparr>"

definition sample_parse :: "jsstring \<Rightarrow> thrown option" where
  "sample_parse s = (if s = js ''ok'' then None else Some (ErrorObject (js ''bad'')))"

definition sample_page :: "jsstring \<Rightarrow> browser" where
  "sample_page t =
     \<lparr>loc = sample_location (js ''bm8=''), reloads = 0,
      view = Mounted ((initial_app (js ''no''))\<lparr>shaderText := t\<rparr>), clipboard = None\<rparr>"



section \<open>Properties of the splitter\<close>

lemma occurrences_Nil: "occurrences pat [] = (if pat = [] then [0] else [])"
  by (simp add: occurrences_def)

lemma occurrences_Cons:
  "occurrences pat (x # xs) =
     (if prefix pat (x # xs) then [0] else []) @ map Suc (occurrences pat xs)"
proof -
  have "[0..<Suc (Suc (length xs))] = 0 # map Suc [0..<Suc (length xs)]"
    by (metis map_Suc_upt upt_conv_Cons zero_less_Suc)
  then show ?thesis
    by (simp add: occurrences_def filter_map comp_def del: upt_Suc)
qed

lemma indexOf_from_occurrences:
  "indexOf_from t pat k =
     (case occurrences pat t of [] \<Rightarrow> - 1 | i # _ \<Rightarrow> int (k + i))"
proof (induction t arbitrary: k)
  case Nil
  show ?case by (simp add: occurrences_Nil)
next
  case (Cons x xs)
  show ?case
    by (simp add: occurrences_Cons Cons.IH split: list.splits)
qed

lemma indexOf_occurrences:
  "indexOf t pat = (case occurrences pat t of [] \<Rightarrow> - 1 | i # _ \<Rightarrow> int i)"
  by (simp add: indexOf_def indexOf_from_occurrences split: list.splits)

lemma occurrences_iff:
  "i \<in> set (occurrences pat t) \<longleftrightarrow> i \<le> length t \<and> prefix pat (drop i t)"
  by (auto simp: occurrences_def simp del: upt_Suc)

lemma occurrences_sorted: "sorted (occurrences pat t)"
  unfolding occurrences_def by (rule sorted_wrt_filter) (rule sorted_upt)

lemma occurrences_first:
  assumes "occurrences pat t = i # rest" and "j \<in> set (occurrences pat t)"
  shows "i \<le> j"
  using occurrences_sorted [of pat t] assms by auto

lemma first_occurrence:
  assumes "i \<le> length t" and "prefix pat (drop i t)"
    and "\<And>j. j < i \<Longrightarrow> \<not> prefix pat (drop j t)"
  shows "\<exists>rest. occurrences pat t = i # rest"
proof -
  have "[0..<i + (Suc (length t) - i)] = [0..<i] @ [i..<i + (Suc (length t) - i)]"
    by (rule upt_add_eq_append) simp
  moreover have "i + (Suc (length t) - i) = Suc (length t)"
    using assms(1) by simp
  moreover have "[i..<Suc (length t)] = i # [Suc i..<Suc (length t)]"
    using assms(1) by (simp add: upt_conv_Cons del: upt_Suc)
  ultimately have "[0..<Suc (length t)] = [0..<i] @ i # [Suc i..<Suc (length t)]"
    by simp
  moreover have "filter (\<lambda>k. prefix pat (drop k t)) [0..<i] = []"
    using assms(3) by (simp add: filter_empty_conv)
  ultimately show ?thesis
    unfolding occurrences_def using assms(2) by simp
qed

lemma slice_take: "i \<le> length s \<Longrightarrow> slice s 0 (int i) = take i s"
  by (simp add: slice_def clamp_index_def Let_def)

lemma slice_from_drop: "slice_from s (int i) = drop i s"
  by (cases "i \<le> length s") (simp_all add: slice_from_def clamp_index_def min_def)

lemma parseShader_found:
  assumes "occurrences INJECTION_MARKER t = i # rest"
  shows "parseShader t = \<lparr>fragmentShader = trim (take i t),
           mutateColorCode = trim (drop (i + length INJECTION_MARKER) t)\<rparr>"
proof -
  have "i \<in> set (occurrences INJECTION_MARKER t)"
    by (simp add: assms)
  then have "i \<le> length t"
    by (simp add: occurrences_iff)
  moreover have "indexOf t INJECTION_MARKER = int i"
    by (simp add: indexOf_occurrences assms)
  moreover have "int i + int (length INJECTION_MARKER) = int (i + length INJECTION_MARKER)"
    by simp
  ultimately show ?thesis
    unfolding parseShader_def Let_def
    by (simp only: slice_take slice_from_drop) simp
qed

lemma parseShader_missing:
  assumes "occurrences INJECTION_MARKER t = []"
  shows "parseShader t = \<lparr>fragmentShader = trim t, mutateColorCode = defaultMutateColorCode\<rparr>"
  by (simp add: parseShader_def indexOf_occurrences assms)

lemma occurrence_split:
  assumes "i \<in> set (occurrences pat t)"
  shows "t = take i t @ pat @ drop (i + length pat) t"
proof -
  from assms obtain r where r: "drop i t = pat @ r"
    by (auto simp: occurrences_iff prefix_def)
  then have "drop (length pat) (drop i t) = r"
    by simp
  then have "drop (i + length pat) t = r"
    by (simp add: add.commute)
  with r show ?thesis
    by (metis append_take_drop_id)
qed

lemma last_dropWhile_nonempty:
  "dropWhile P xs \<noteq> [] \<Longrightarrow> last (dropWhile P xs) = last xs"
  by (metis last_appendR takeWhile_dropWhile_id)

lemma trimmed_trim: "trimmed (trim s)"
proof (cases "trim s = []")
  case True
  then show ?thesis by (simp add: trimmed_def)
next
  case False
  define d where "d = dropWhile is_js_space s"
  define e where "e = dropWhile is_js_space (rev d)"
  have ts: "trim s = rev e"
    by (simp add: trim_def d_def e_def)
  with False have e: "e \<noteq> []" by simp
  then have d: "d \<noteq> []" by (auto simp: e_def)
  have "last (rev e) = hd e"
    using e by (simp add: last_rev)
  moreover have "\<not> is_js_space (hd e)"
    using e unfolding e_def by (rule hd_dropWhile)
  moreover have "hd (rev e) = last e"
    using e by (simp add: hd_rev)
  moreover have "last e = last (rev d)"
    using e unfolding e_def by (rule last_dropWhile_nonempty)
  moreover have "last (rev d) = hd d"
    using d by (simp add: last_rev)
  moreover have "\<not> is_js_space (hd d)"
    using d unfolding d_def by (rule hd_dropWhile)
  ultimately show ?thesis
    by (simp add: trimmed_def ts)
qed

lemma trim_trimmed: "trimmed s \<Longrightarrow> trim s = s"
proof (cases "s = []")
  case True
  then show ?thesis by (simp add: trim_def)
next
  case False
  assume "trimmed s"
  with False have h: "\<not> is_js_space (hd s)" and l: "\<not> is_js_space (last s)"
    by (simp_all add: trimmed_def)
  have "dropWhile is_js_space s = s"
    using h by (simp add: dropWhile_eq_self_iff)
  moreover have "dropWhile is_js_space (rev s) = rev s"
    using l False by (simp add: dropWhile_eq_self_iff hd_rev)
  ultimately show ?thesis
    by (simp add: trim_def)
qed

lemma trim_idem: "trim (trim s) = trim s"
  by (rule trim_trimmed) (rule trimmed_trim)

lemma trim_leading: "\<forall>u \<in> set ws. is_js_space u \<Longrightarrow> trim (ws @ s) = trim s"
  by (simp add: trim_def dropWhile_append2)

lemma trim_trailing:
  assumes "\<forall>u \<in> set ws. is_js_space u"
  shows "trim (s @ ws) = trim s"
proof (cases "dropWhile is_js_space s = []")
  case True
  then have "\<forall>u \<in> set s. is_js_space u"
    by simp
  with assms have "dropWhile is_js_space (s @ ws) = []"
    by auto
  then show ?thesis
    by (simp only: trim_def True)
next
  case False
  then obtain x where "x \<in> set s" and "\<not> is_js_space x"
    by (auto simp: dropWhile_eq_Nil_conv)
  then have "dropWhile is_js_space (s @ ws) = dropWhile is_js_space s @ ws"
    by (simp add: dropWhile_append1)
  moreover have "dropWhile is_js_space (rev ws @ rev (dropWhile is_js_space s))
      = dropWhile is_js_space (rev (dropWhile is_js_space s))"
    by (rule dropWhile_append2) (use assms in simp)
  ultimately show ?thesis
    by (simp add: trim_def)
qed

lemma sublist_trim: "sublist (trim s) s"
proof -
  define d where "d = dropWhile is_js_space s"
  have "rev d = takeWhile is_js_space (rev d) @ dropWhile is_js_space (rev d)"
    by simp
  then have "rev (rev d) = rev (takeWhile is_js_space (rev d) @ dropWhile is_js_space (rev d))"
    by (rule arg_cong)
  then have "d = rev (dropWhile is_js_space (rev d)) @ rev (takeWhile is_js_space (rev d))"
    by (simp only: rev_rev_ident rev_append)
  then have "d = trim s @ rev (takeWhile is_js_space (rev d))"
    by (simp only: trim_def d_def)
  moreover have "s = takeWhile is_js_space s @ d"
    by (simp add: d_def)
  ultimately have "s = takeWhile is_js_space s @ trim s @ rev (takeWhile is_js_space (rev d))"
    by simp
  then show ?thesis
    unfolding sublist_def by blast
qed

lemma occurrences_sublist:
  assumes "sublist s t" and "occurrences pat t = []"
  shows "occurrences pat s = []"
proof (rule ccontr)
  assume "occurrences pat s \<noteq> []"
  then obtain j where j: "j \<in> set (occurrences pat s)"
    by (cases "occurrences pat s") auto
  from assms(1) obtain a b where t: "t = a @ s @ b"
    by (auto simp: sublist_def)
  from j have "j \<le> length s" and "prefix pat (drop j s)"
    by (simp_all add: occurrences_iff)
  then have "length a + j \<le> length t" and "prefix pat (drop (length a + j) t)"
    by (simp_all add: t prefix_prefix)
  then have "length a + j \<in> set (occurrences pat t)"
    by (simp add: occurrences_iff)
  with assms(2) show False by simp
qed

lemma occurrences_before_first:
  assumes "occurrences pat t = i # rest" and "pat \<noteq> []"
  shows "occurrences pat (take i t) = []"
proof (rule ccontr)
  assume "occurrences pat (take i t) \<noteq> []"
  then obtain j where j: "j \<in> set (occurrences pat (take i t))"
    by (cases "occurrences pat (take i t)") auto
  have i: "i \<le> length t"
    using assms(1) occurrences_iff [of i pat t] by simp
  from j have jl: "j \<le> i" and p: "prefix pat (drop j (take i t))"
    using i by (simp_all add: occurrences_iff)
  have "j \<noteq> i"
    using p assms(2) by auto
  with jl have lt: "j < i" by simp
  have "drop j t = drop j (take i t) @ drop i t"
    using jl by (metis append_take_drop_id drop_append drop_take diff_is_0_eq drop_0 length_take min.absorb2 i)
  with p have "prefix pat (drop j t)"
    by (simp add: prefix_prefix)
  then have "j \<in> set (occurrences pat t)"
    using lt i by (simp add: occurrences_iff)
  from occurrences_first [OF assms(1) this] lt show False by simp
qed

lemma marker_nonempty: "INJECTION_MARKER \<noteq> []"
  by (simp add: INJECTION_MARKER_def js_def)

lemma template_without_marker:
  "occurrences INJECTION_MARKER (fragmentShader (parseShader t)) = []"
proof (cases "occurrences INJECTION_MARKER t")
  case Nil
  then show ?thesis
    by (simp add: parseShader_missing occurrences_sublist [OF sublist_trim])
next
  case (Cons i rest)
  then show ?thesis
    by (simp add: parseShader_found
        occurrences_sublist [OF sublist_trim occurrences_before_first [OF Cons marker_nonempty]])
qed

lemma LF_space: "is_js_space LF"
  by (simp add: is_js_space_def LF_def)

lemma marker_no_LF: "LF \<notin> set INJECTION_MARKER"
  by (simp add: INJECTION_MARKER_def js_def LF_def)

lemma marker_head: "\<not> prefix INJECTION_MARKER (LF # r)"
  by (simp add: INJECTION_MARKER_def js_def LF_def)

lemma prefix_before_separator:
  assumes "prefix pat (x @ c # r)" and "c \<notin> set pat"
  shows "prefix pat x"
proof -
  from assms(1) consider "prefix pat x" | z where "pat = x @ z" and "prefix z (c # r)"
    by (auto simp: prefix_append)
  then show ?thesis
  proof cases
    case 1
    then show ?thesis .
  next
    case 2
    with assms(2) have "z = []"
      by (cases z) auto
    with 2 show ?thesis by simp
  qed
qed

lemma parseShader_join:
  assumes "occurrences INJECTION_MARKER (fragmentShader p) = []"
  shows "parseShader (join p) =
           \<lparr>fragmentShader = trim (fragmentShader p), mutateColorCode = trim (mutateColorCode p)\<rparr>"
proof -
  define a where "a = fragmentShader p"
  define b where "b = mutateColorCode p"
  define i where "i = length a + 2"
  have j: "join p = a @ LF # LF # INJECTION_MARKER @ LF # b"
    by (simp add: join_def a_def b_def)
  have di: "drop i (join p) = INJECTION_MARKER @ LF # b"
    by (simp add: j i_def)
  have "i \<le> length (join p)"
    by (simp add: j i_def)
  moreover have "prefix INJECTION_MARKER (drop i (join p))"
    by (simp add: di)
  moreover have "\<not> prefix INJECTION_MARKER (drop k (join p))" if "k < i" for k
  proof (cases "k \<le> length a")
    case True
    show ?thesis
    proof
      assume "prefix INJECTION_MARKER (drop k (join p))"
      then have "prefix INJECTION_MARKER (drop k a @ LF # LF # INJECTION_MARKER @ LF # b)"
        using True by (simp add: j)
      then have "prefix INJECTION_MARKER (drop k a)"
        using marker_no_LF by (rule prefix_before_separator)
      with True have "k \<in> set (occurrences INJECTION_MARKER a)"
        by (simp add: occurrences_iff)
      with assms show False
        by (simp add: a_def)
    qed
  next
    case False
    with that have "k = Suc (length a)"
      by (simp add: i_def)
    then have "drop k (join p) = LF # INJECTION_MARKER @ LF # b"
      by (simp add: j)
    then show ?thesis
      by (simp only: marker_head not_False_eq_True)
  qed
  ultimately obtain rest where "occurrences INJECTION_MARKER (join p) = i # rest"
    using first_occurrence [of i "join p" INJECTION_MARKER] by blast
  then have "parseShader (join p) = \<lparr>fragmentShader = trim (take i (join p)),
      mutateColorCode = trim (drop (i + length INJECTION_MARKER) (join p))\<rparr>"
    by (rule parseShader_found)
  moreover have "take i (join p) = a @ [LF, LF]"
    by (simp add: j i_def)
  moreover have "drop (i + length INJECTION_MARKER) (join p) = [LF] @ b"
    by (simp add: j i_def)
  moreover have "trim (a @ [LF, LF]) = trim a"
    by (rule trim_trailing) (simp add: LF_space)
  moreover have "trim ([LF] @ b) = trim b"
    by (rule trim_leading) (simp add: LF_space)
  ultimately show ?thesis
    by (simp only: a_def b_def)
qed

lemma parseShader_template_trimmed: "trim (fragmentShader (parseShader t)) = fragmentShader (parseShader t)"
  by (cases "occurrences INJECTION_MARKER t")
    (simp_all add: parseShader_missing parseShader_found trim_idem)

lemma parseShader_injection_trimmed:
  "occurrences INJECTION_MARKER t \<noteq> [] \<Longrightarrow>
     trim (mutateColorCode (parseShader t)) = mutateColorCode (parseShader t)"
  by (cases "occurrences INJECTION_MARKER t")
    (simp_all add: parseShader_found trim_idem)

text \<open>
  C2. When the marker occurs exactly once in the text, at position \<open>i\<close>, the text is
  the part before position \<open>i\<close>, the marker and the part after the marker, and
  \<open>parseShader\<close> returns the two parts trimmed. When the marker does not occur,
  the template part is the whole trimmed text and the injection part is the default
  snippet. \<open>parseShader\<close> has no failing branch: it is a total function into
  \<open>shader_program\<close>.
\<close>

theorem parseShader_splits_at_marker:
  "(occurrences INJECTION_MARKER t = [i] \<longrightarrow>
      t = take i t @ INJECTION_MARKER @ drop (i + length INJECTION_MARKER) t \<and>
      parseShader t = \<lparr>fragmentShader = trim (take i t),
                       mutateColorCode = trim (drop (i + length INJECTION_MARKER) t)\<rparr>)
   \<and> (occurrences INJECTION_MARKER t = [] \<longrightarrow>
      parseShader t = \<lparr>fragmentShader = trim t, mutateColorCode = defaultMutateColorCode\<rparr>)"
proof (intro conjI impI)
  assume h: "occurrences INJECTION_MARKER t = [i]"
  then have "i \<in> set (occurrences INJECTION_MARKER t)"
    by simp
  then show "t = take i t @ INJECTION_MARKER @ drop (i + length INJECTION_MARKER) t"
    by (rule occurrence_split)
  from h show "parseShader t = \<lparr>fragmentShader = trim (take i t),
      mutateColorCode = trim (drop (i + length INJECTION_MARKER) t)\<rparr>"
    by (rule parseShader_found)
next
  assume "occurrences INJECTION_MARKER t = []"
  then show "parseShader t = \<lparr>fragmentShader = trim t, mutateColorCode = defaultMutateColorCode\<rparr>"
    by (rule parseShader_missing)
qed

theorem parseShader_splits_at_marker_witness:
  "occurrences INJECTION_MARKER (js ''a // Injection point: b '') = [2]
   \<and> parseShader (js ''a // Injection point: b '')
       = \<lparr>fragmentShader = js ''a'', mutateColorCode = js ''b''\<rparr>
   \<and> occurrences INJECTION_MARKER (js '' void main '') = []
   \<and> parseShader (js '' void main '')
       = \<lparr>fragmentShader = js ''void main'', mutateColorCode = defaultMutateColorCode\<rparr>"
proof -
  have a: "occurrences INJECTION_MARKER (js ''a // Injection point: b '') = [2]"
    by code_simp
  have b: "occurrences INJECTION_MARKER (js '' void main '') = []"
    by code_simp
  have c: "trim (take 2 (js ''a // Injection point: b '')) = js ''a''"
    by code_simp
  have d: "trim (drop (2 + length INJECTION_MARKER) (js ''a // Injection point: b '')) = js ''b''"
    by code_simp
  have e: "trim (js '' void main '') = js ''void main''"
    by code_simp
  show ?thesis
    using parseShader_splits_at_marker [of "js ''a // Injection point: b ''" 2]
      parseShader_splits_at_marker [of "js '' void main ''" 0] a b c d e
    by simp
qed

text \<open>
  C3, as stated, fails for a text without marker: the default injection snippet ends
  with a line feed, which splitting the joined text trims away.
\<close>

theorem parseShader_join_not_identity:
  "parseShader (join (parseShader [])) \<noteq> parseShader []"
  by code_simp

text \<open>
  C3, amended. For every program produced by \<open>parseShader\<close>, splitting the joined
  text returns the same template part and the injection part trimmed; it returns the
  program itself whenever the program came from a text that contains the marker.
\<close>

theorem parseShader_join_roundtrip:
  "parseShader (join (parseShader t))
     = (parseShader t)\<lparr>mutateColorCode := trim (mutateColorCode (parseShader t))\<rparr>
   \<and> (occurrences INJECTION_MARKER t \<noteq> [] \<longrightarrow> parseShader (join (parseShader t)) = parseShader t)"
proof -
  have "parseShader (join (parseShader t))
      = \<lparr>fragmentShader = fragmentShader (parseShader t),
         mutateColorCode = trim (mutateColorCode (parseShader t))\<rparr>"
    by (simp only: parseShader_join [OF template_without_marker] parseShader_template_trimmed)
  then show ?thesis
    by (simp add: parseShader_injection_trimmed)
qed

theorem parseShader_join_roundtrip_witness:
  "occurrences INJECTION_MARKER (js ''a // Injection point: b '') \<noteq> []
   \<and> parseShader (join (parseShader (js ''a // Injection point: b '')))
       = parseShader (js ''a // Injection point: b '')"
proof -
  have "occurrences INJECTION_MARKER (js ''a // Injection point: b '') \<noteq> []"
    by code_simp
  then show ?thesis
    using parseShader_join_roundtrip [of "js ''a // Injection point: b ''"] by blast
qed

section \<open>Properties of the codec\<close>

lemma unat_byte: "n < 256 \<Longrightarrow> unat (word_of_nat n :: byte) = n"
  by (simp add: unat_of_nat)

lemma unat_code_unit: "n < 65536 \<Longrightarrow> unat (word_of_nat n :: code_unit) = n"
  by (simp add: unat_of_nat)

lemma byte_bound: "unat (b :: byte) < 256"
  using unsigned_less [of b] by simp

lemma code_unit_bound: "unat (u :: code_unit) < 65536"
  using unsigned_less [of u] by simp

lemma unat_fromCharCode: "unat (fromCharCode b) = unat b"
proof -
  have "unat (ucast b :: code_unit) = take_bit 16 (unat b)"
    by (simp add: unsigned_ucast_eq)
  moreover have "take_bit 16 (unat b) = unat b"
    using byte_bound [of b] by (simp add: take_bit_nat_eq_self)
  ultimately show ?thesis
    by (simp add: fromCharCode_def)
qed

lemma to_uint8_fromCharCode: "to_uint8 (fromCharCode b) = b"
  unfolding to_uint8_def fromCharCode_def
  by (rule ucast_up_ucast_id) (simp add: is_up)

lemma fromCharCode_latin1: "\<not> 0xFF < fromCharCode b"
  using byte_bound [of b] by (simp add: word_less_nat_alt unat_fromCharCode)

lemma base64_index_unat:
  "base64_index u =
     (if 0x41 \<le> unat u \<and> unat u \<le> 0x5A then Some (unat u - 0x41)
      else if 0x61 \<le> unat u \<and> unat u \<le> 0x7A then Some (unat u - 0x61 + 26)
      else if 0x30 \<le> unat u \<and> unat u \<le> 0x39 then Some (unat u - 0x30 + 52)
      else if unat u = 0x2B then Some 62
      else if unat u = 0x2F then Some 63
      else None)"
  by (simp add: base64_index_def word_le_nat_alt word_unat_eq_iff)

lemma unat_base64_char:
  assumes "n < 64"
  shows "unat (base64_char n) =
     (if n < 26 then 0x41 + n else if n < 52 then 0x61 + (n - 26)
      else if n < 62 then 0x30 + (n - 52) else if n = 62 then 0x2B else 0x2F)"
proof -
  have "unat (word_of_nat (0x41 + n) :: code_unit) = 0x41 + n"
    by (rule unat_code_unit) (use assms in simp)
  moreover have "unat (word_of_nat (0x61 + (n - 26)) :: code_unit) = 0x61 + (n - 26)"
    by (rule unat_code_unit) (use assms in simp)
  moreover have "unat (word_of_nat (0x30 + (n - 52)) :: code_unit) = 0x30 + (n - 52)"
    by (rule unat_code_unit) (use assms in simp)
  ultimately show ?thesis
    by (simp only: base64_char_def split: if_splits) simp
qed

lemma base64_index_char:
  assumes "n < 64"
  shows "base64_index (base64_char n) = Some n"
proof -
  consider "n < 26" | "26 \<le> n" "n < 52" | "52 \<le> n" "n < 62" | "n = 62" | "n = 63"
    using assms by linarith
  then show ?thesis
  proof cases
    case 1
    then show ?thesis by (simp add: base64_index_unat unat_base64_char)
  next
    case 2
    then show ?thesis by (simp add: base64_index_unat unat_base64_char)
  next
    case 3
    then show ?thesis by (simp add: base64_index_unat unat_base64_char) arith
  next
    case 4
    then show ?thesis by (simp add: base64_index_unat unat_base64_char)
  next
    case 5
    then show ?thesis by (simp add: base64_index_unat unat_base64_char)
  qed
qed

lemma sextets_bound: "n \<in> set (sextets bs) \<Longrightarrow> n < 64"
proof (induction bs arbitrary: n rule: sextets.induct)
  case (2 a)
  then show ?case using byte_bound [of a] by auto
next
  case (3 a b)
  then show ?case using byte_bound [of a] byte_bound [of b] by auto
next
  case (4 a b c r)
  then show ?case using byte_bound [of a] byte_bound [of b] byte_bound [of c] by auto
qed simp

lemma base64_encode_sextets: "base64_encode bs = map base64_char (sextets bs) @ padding bs"
proof (induction bs rule: base64_encode.induct)
  case (4 a b c r)
  have "padding (a # b # c # r) = padding r"
    by (simp add: padding_def)
  with 4 show ?case by simp
qed (simp_all add: padding_def numeral_2_eq_2)

lemma base64_index_other:
  "base64_index PAD = None" "base64_index 0x2D = None" "base64_index 0x5F = None"
  "is_ascii_whitespace u \<Longrightarrow> base64_index u = None"
  by (auto simp: base64_index_def PAD_def is_ascii_whitespace_def)

lemma indices_map_char: "(\<And>n. n \<in> set ns \<Longrightarrow> n < 64) \<Longrightarrow> indices (map base64_char ns) = Some ns"
  by (induction ns) (simp_all add: base64_index_char)

lemma indices_sextets: "indices (map base64_char (sextets bs)) = Some (sextets bs)"
  by (rule indices_map_char) (rule sextets_bound)

lemma indices_member: "indices s = Some ns \<Longrightarrow> u \<in> set s \<Longrightarrow> base64_index u \<noteq> None"
  by (induction s arbitrary: ns) (auto split: option.splits)

lemma length_sextets: "length (sextets bs) mod 4 \<noteq> 1"
  by (induction bs rule: sextets.induct) simp_all

lemma length_base64_encode: "length (base64_encode bs) mod 4 = 0"
  by (induction bs rule: base64_encode.induct) simp_all

lemma split_high: "(x::nat) mod 4 * 16 + y div 16 = z \<Longrightarrow> y < 256 \<Longrightarrow> x div 4 * 4 + z div 16 = x"
  by auto

lemma split_mid: "(x::nat) mod 4 * 16 + y div 16 = z \<Longrightarrow> y mod 16 * 4 + c div 64 = w \<Longrightarrow>
    y < 256 \<Longrightarrow> c < 256 \<Longrightarrow> z mod 16 * 16 + w div 4 = y"
  by auto

lemma split_low: "(y::nat) mod 16 * 4 + c div 64 = w \<Longrightarrow> c < 256 \<Longrightarrow> w mod 4 * 64 + c mod 64 = c"
  by auto

lemma base64_decode_groups_sextets: "base64_decode_groups (sextets bs) = bs"
proof (induction bs rule: sextets.induct)
  case (2 a)
  have "unat a div 4 * 4 + unat a mod 4 * 16 div 16 = unat a"
    by simp
  then show ?case by simp
next
  case (3 a b)
  have "unat a div 4 * 4 + (unat a mod 4 * 16 + unat b div 16) div 16 = unat a"
    using byte_bound [of b] by (simp add: split_high)
  moreover have "(unat a mod 4 * 16 + unat b div 16) mod 16 * 16 + unat b mod 16 * 4 div 4 = unat b"
    using split_mid [of "unat a" "unat b" _ 0] byte_bound [of b] by simp
  ultimately show ?case by simp
next
  case (4 a b c r)
  have "unat a div 4 * 4 + (unat a mod 4 * 16 + unat b div 16) div 16 = unat a"
    using byte_bound [of b] by (simp add: split_high)
  moreover have "(unat a mod 4 * 16 + unat b div 16) mod 16 * 16
      + (unat b mod 16 * 4 + unat c div 64) div 4 = unat b"
    using byte_bound [of b] byte_bound [of c] by (simp add: split_mid)
  moreover have "(unat b mod 16 * 4 + unat c div 64) mod 4 * 64 + unat c mod 64 = unat c"
    using byte_bound [of c] by (simp add: split_low)
  ultimately show ?case using 4 by simp
qed simp

lemma no_PAD_in_body: "PAD \<notin> set (map base64_char (sextets bs))"
  using indices_member [OF indices_sextets, of PAD bs] by (auto simp: base64_index_other)

lemma strip_padding_encode: "strip_padding (base64_encode bs) = map base64_char (sextets bs)"
proof -
  define body where "body = map base64_char (sextets bs)"
  have e: "base64_encode bs = body @ padding bs"
    by (simp add: base64_encode_sextets body_def)
  have nb: "PAD \<notin> set body"
    unfolding body_def by (rule no_PAD_in_body)
  have l: "length (body @ padding bs) mod 4 = 0"
    using length_base64_encode [of bs] by (simp add: e)
  consider "padding bs = []" | "padding bs = [PAD]" | "padding bs = [PAD, PAD]"
  proof -
    have "(3 - length bs mod 3) mod 3 = 0 \<or> (3 - length bs mod 3) mod 3 = 1
        \<or> (3 - length bs mod 3) mod 3 = 2"
      by arith
    then have "padding bs = [] \<or> padding bs = [PAD] \<or> padding bs = [PAD, PAD]"
      unfolding padding_def by (auto simp: numeral_2_eq_2)
    then show ?thesis using that by blast
  qed
  then have "strip_padding (body @ padding bs) = body"
  proof cases
    case 1
    have "\<not> suffix [PAD] body"
      using nb by (auto simp: suffix_def)
    moreover have "\<not> suffix [PAD, PAD] body"
      using nb by (auto simp: suffix_def)
    ultimately show ?thesis
      by (simp add: strip_padding_def 1)
  next
    case 2
    have "\<not> suffix [PAD, PAD] (body @ [PAD])"
      using nb by (auto simp: suffix_def append_eq_append_conv2 Cons_eq_append_conv)
    then show ?thesis
      using l by (simp add: strip_padding_def 2)
  next
    case 3
    have "suffix [PAD, PAD] (body @ [PAD, PAD])"
      by (simp add: suffix_def)
    then show ?thesis
      using l by (simp add: strip_padding_def 3)
  qed
  then show ?thesis
    by (simp add: e body_def)
qed

lemma encode_chars:
  assumes "u \<in> set (base64_encode bs)"
  shows "u \<noteq> 0x2D" and "u \<noteq> 0x5F" and "\<not> is_ascii_whitespace u"
proof -
  from assms consider "u \<in> set (map base64_char (sextets bs))" | "u = PAD"
    by (auto simp: base64_encode_sextets padding_def)
  then have "u \<noteq> 0x2D \<and> u \<noteq> 0x5F \<and> \<not> is_ascii_whitespace u"
  proof cases
    case 1
    then have "base64_index u \<noteq> None"
      by (rule indices_member [OF indices_sextets])
    then show ?thesis
      by (auto simp: base64_index_other)
  next
    case 2
    then show ?thesis by (simp add: PAD_def is_ascii_whitespace_def)
  qed
  then show "u \<noteq> 0x2D" and "u \<noteq> 0x5F" and "\<not> is_ascii_whitespace u"
    by simp_all
qed

lemma no_whitespace_encode: "filter (\<lambda>u. \<not> is_ascii_whitespace u) (base64_encode bs) = base64_encode bs"
  by (simp add: encode_chars(3))

lemma atob_base64_encode: "atob (base64_encode bs) = Inr (map fromCharCode bs)"
  by (simp add: atob_def no_whitespace_encode strip_padding_encode length_sextets
      indices_sextets base64_decode_groups_sextets del: One_nat_def)

lemma btoa_binary: "btoa (map fromCharCode bs) = Inr (base64_encode bs)"
  by (simp add: btoa_def fromCharCode_latin1 to_uint8_fromCharCode comp_def)

lemma replace_roundtrip:
  "replace_all 0x5F 0x2F (replace_all 0x2D 0x2B (replace_all 0x2F 0x5F (replace_all 0x2B 0x2D
     (base64_encode bs)))) = base64_encode bs"
proof -
  define h :: "code_unit \<Rightarrow> code_unit \<Rightarrow> code_unit \<Rightarrow> code_unit"
    where "h a b u = (if u = a then b else u)" for a b u
  have r: "replace_all a b s = map (h a b) s" for a b s
    by (simp add: replace_all_def h_def)
  have "h 0x5F 0x2F (h 0x2D 0x2B (h 0x2F 0x5F (h 0x2B 0x2D u))) = u"
    if "u \<in> set (base64_encode bs)" for u
  proof -
    have "u \<noteq> 0x2D" and "u \<noteq> 0x5F"
      using that by (rule encode_chars)+
    then show ?thesis
      by (cases "u = 0x2B"; cases "u = 0x2F") (simp_all add: h_def)
  qed
  then have "map (\<lambda>u. h 0x5F 0x2F (h 0x2D 0x2B (h 0x2F 0x5F (h 0x2B 0x2D u)))) (base64_encode bs)
      = base64_encode bs"
    by (rule map_idI)
  then show ?thesis
    by (simp add: r comp_def)
qed

lemma mod_shift: "q < m \<Longrightarrow> (k * m + q) mod m = (q::nat)"
  by simp

lemma mod_C0: "q < 32 \<Longrightarrow> (0xC0 + q) mod 32 = (q::nat)"
  using mod_shift [of q 32 6] by simp

lemma mod_E0: "q < 16 \<Longrightarrow> (0xE0 + q) mod 16 = (q::nat)"
  using mod_shift [of q 16 14] by simp

lemma mod_F0: "q \<le> 4 \<Longrightarrow> (0xF0 + q) mod 8 = (q::nat)"
  using mod_shift [of q 8 30] by simp

lemma mod_80: "r < 64 \<Longrightarrow> (0x80 + r) mod 64 = (r::nat)"
  using mod_shift [of r 64 2] by simp

lemma decoder_ascii:
  assumes "unat b = c" and "c \<le> 0x7F"
  shows "utf8_start (b # bs) = c # utf8_start bs"
  using assms by (simp add: Let_def)

lemma decoder_lead2:
  assumes "unat b = 0xC0 + q" and "2 \<le> q" and "q < 32"
  shows "utf8_start (b # bs) = utf8_decoder q 0 1 0x80 0xBF bs"
proof -
  have "(0xC0 + q) mod 32 = q"
    using assms(3) by (rule mod_C0)
  then show ?thesis
    using assms by (simp add: Let_def)
qed

lemma decoder_lead3:
  assumes "unat b = 0xE0 + q" and "q < 16"
  shows "utf8_start (b # bs) =
    utf8_decoder q 0 2 (if q = 0 then 0xA0 else 0x80) (if q = 13 then 0x9F else 0xBF) bs"
proof -
  have "(0xE0 + q) mod 16 = q"
    using assms(2) by (rule mod_E0)
  then show ?thesis
    using assms by (simp add: Let_def)
qed

lemma decoder_lead4:
  assumes "unat b = 0xF0 + q" and "q \<le> 4"
  shows "utf8_start (b # bs) =
    utf8_decoder q 0 3 (if q = 0 then 0x90 else 0x80) (if q = 4 then 0x8F else 0xBF) bs"
proof -
  have "(0xF0 + q) mod 8 = q"
    using assms(2) by (rule mod_F0)
  then show ?thesis
    using assms by (simp add: Let_def)
qed

lemma decoder_continue:
  assumes "unat b = 0x80 + r" and "r < 64" and "lower \<le> 0x80 + r" and "0x80 + r \<le> upper"
    and "needed \<noteq> 0" and "Suc seen \<noteq> needed"
  shows "utf8_decoder cp seen needed lower upper (b # bs)
    = utf8_decoder (cp * 64 + r) (Suc seen) needed 0x80 0xBF bs"
proof -
  have "(0x80 + r) mod 64 = r"
    using assms(2) by (rule mod_80)
  then show ?thesis
    using assms by (simp add: Let_def)
qed

lemma decoder_last:
  assumes "unat b = 0x80 + r" and "r < 64" and "lower \<le> 0x80 + r" and "0x80 + r \<le> upper"
    and "Suc seen = needed"
  shows "utf8_decoder cp seen needed lower upper (b # bs) = (cp * 64 + r) # utf8_start bs"
proof -
  have "(0x80 + r) mod 64 = r"
    using assms(2) by (rule mod_80)
  moreover have "needed \<noteq> 0"
    using assms(5) by auto
  ultimately show ?thesis
    using assms by (simp add: Let_def)
qed

lemma div_4096: "(c::nat) div 4096 = c div 64 div 64"
  by (simp add: div_mult2_eq [symmetric])

lemma div_262144: "(c::nat) div 262144 = c div 64 div 64 div 64"
  by (simp add: div_mult2_eq [symmetric])

lemma encode2_digits:
  assumes "0x7F < (c::nat)" and "c \<le> 0x7FF"
  obtains q r where "c div 64 = q" and "c mod 64 = r" and "2 \<le> q" and "q < 32" and "r < 64"
    and "q * 64 + r = c"
proof -
  define q where "q = c div 64"
  define r where "r = c mod 64"
  have c: "q * 64 + r = c"
    by (simp add: q_def r_def)
  have r: "r < 64"
    by (simp add: r_def)
  have "2 \<le> q"
    using c r assms by linarith
  moreover have "q < 32"
    using c r assms by linarith
  ultimately show ?thesis
    using that [of q r] c r by (simp add: q_def r_def)
qed

lemma encode3_digits:
  assumes "0x7FF < (c::nat)" and "c \<le> 0xFFFF" and "\<not> (0xD800 \<le> c \<and> c \<le> 0xDFFF)"
  obtains q m r where "c div 4096 = q" and "c div 64 mod 64 = m" and "c mod 64 = r"
    and "q < 16" and "m < 64" and "r < 64" and "(q * 64 + m) * 64 + r = c"
    and "q = 0 \<longrightarrow> 32 \<le> m" and "q = 13 \<longrightarrow> m < 32"
proof -
  define d where "d = c div 64"
  define r where "r = c mod 64"
  define q where "q = d div 64"
  define m where "m = d mod 64"
  have c: "d * 64 + r = c"
    by (simp add: d_def r_def)
  have d: "q * 64 + m = d"
    by (simp add: q_def m_def)
  have r: "r < 64" and m: "m < 64"
    by (simp_all add: r_def m_def)
  have 1: "q < 16"
    using c d r m assms by linarith
  have 2: "q = 0 \<longrightarrow> 32 \<le> m"
    using c d r m assms by linarith
  have 3: "q = 13 \<longrightarrow> m < 32"
    using c d r m assms by linarith
  have 4: "c div 4096 = q"
    by (simp add: div_4096 q_def d_def)
  have 5: "c div 64 mod 64 = m"
    by (simp add: m_def d_def)
  have 6: "(q * 64 + m) * 64 + r = c"
    using c d by simp
  have 7: "c mod 64 = r"
    by (simp add: r_def)
  show ?thesis
    by (rule that [OF 4 5 7 1 m r 6 2 3])
qed

lemma encode4_digits:
  assumes "0xFFFF < (c::nat)" and "c < 0x110000"
  obtains q m n r where "c div 262144 = q" and "c div 4096 mod 64 = m"
    and "c div 64 mod 64 = n" and "c mod 64 = r"
    and "q \<le> 4" and "m < 64" and "n < 64" and "r < 64"
    and "((q * 64 + m) * 64 + n) * 64 + r = c"
    and "q = 0 \<longrightarrow> 16 \<le> m" and "q = 4 \<longrightarrow> m < 16"
proof -
  define d where "d = c div 64"
  define r where "r = c mod 64"
  define e where "e = d div 64"
  define n where "n = d mod 64"
  define q where "q = e div 64"
  define m where "m = e mod 64"
  have c: "d * 64 + r = c"
    by (simp add: d_def r_def)
  have d: "e * 64 + n = d"
    by (simp add: e_def n_def)
  have e: "q * 64 + m = e"
    by (simp add: q_def m_def)
  have r: "r < 64" and n: "n < 64" and m: "m < 64"
    by (simp_all add: r_def n_def m_def)
  have 1: "q \<le> 4"
    using c d e r n m assms by linarith
  have 2: "q = 0 \<longrightarrow> 16 \<le> m"
    using c d e r n m assms by linarith
  have 3: "q = 4 \<longrightarrow> m < 16"
    using c d e r n m assms by linarith
  have 4: "c div 262144 = q"
    by (simp add: div_262144 q_def e_def d_def)
  have 5: "c div 4096 mod 64 = m"
    by (simp add: div_4096 m_def e_def d_def)
  have 6: "c div 64 mod 64 = n"
    by (simp add: n_def d_def)
  have 7: "c mod 64 = r"
    by (simp add: r_def)
  have 8: "((q * 64 + m) * 64 + n) * 64 + r = c"
    using c d e by simp
  show ?thesis
    by (rule that [OF 4 5 6 7 1 m n r 8 2 3])
qed

lemma decode_encoded_code_point:
  assumes "is_scalar_value c"
  shows "utf8_start (utf8_encode_code_point c @ bs) = c # utf8_start bs"
proof -
  from assms have lt: "c < 0x110000" and ns: "\<not> (0xD800 \<le> c \<and> c \<le> 0xDFFF)"
    by (simp_all add: is_scalar_value_def)
  consider "c \<le> 0x7F" | "0x7F < c" "c \<le> 0x7FF" | "0x7FF < c" "c \<le> 0xFFFF" | "0xFFFF < c"
    by linarith
  then show ?thesis
  proof cases
    case 1
    then have "unat (word_of_nat c :: byte) = c"
      by (intro unat_byte) simp
    then have "utf8_start ((word_of_nat c :: byte) # bs) = c # utf8_start bs"
      using 1 by (rule decoder_ascii)
    then show ?thesis
      using 1 by (simp add: utf8_encode_code_point_def)
  next
    case 2
    then obtain q r where dg: "c div 64 = q" "c mod 64 = r" "2 \<le> q" "q < 32" "r < 64"
      "q * 64 + r = c"
      by (rule encode2_digits)
    define b1 :: byte where "b1 = word_of_nat (0xC0 + q)"
    define b2 :: byte where "b2 = word_of_nat (0x80 + r)"
    have u1: "unat b1 = 0xC0 + q"
      unfolding b1_def using dg(4) by (intro unat_byte) simp
    have u2: "unat b2 = 0x80 + r"
      unfolding b2_def using dg(5) by (intro unat_byte) simp
    have e: "utf8_encode_code_point c = [b1, b2]"
      using 2 by (simp add: utf8_encode_code_point_def dg(1,2) b1_def b2_def)
    have "utf8_start (b1 # b2 # bs) = utf8_decoder q 0 1 0x80 0xBF (b2 # bs)"
      using u1 dg(3,4) by (rule decoder_lead2)
    also have "\<dots> = (q * 64 + r) # utf8_start bs"
      using u2 dg(5) by (rule decoder_last) (use dg(5) in simp_all)
    finally show ?thesis
      by (simp only: e append_Cons append_Nil dg(6))
  next
    case 3
    then obtain q m r where dg: "c div 4096 = q" "c div 64 mod 64 = m" "c mod 64 = r"
      "q < 16" "m < 64" "r < 64" "(q * 64 + m) * 64 + r = c"
      "q = 0 \<longrightarrow> 32 \<le> m" "q = 13 \<longrightarrow> m < 32"
      using ns by (rule encode3_digits)
    define b1 :: byte where "b1 = word_of_nat (0xE0 + q)"
    define b2 :: byte where "b2 = word_of_nat (0x80 + m)"
    define b3 :: byte where "b3 = word_of_nat (0x80 + r)"
    have u1: "unat b1 = 0xE0 + q"
      unfolding b1_def using dg(4) by (intro unat_byte) simp
    have u2: "unat b2 = 0x80 + m"
      unfolding b2_def using dg(5) by (intro unat_byte) simp
    have u3: "unat b3 = 0x80 + r"
      unfolding b3_def using dg(6) by (intro unat_byte) simp
    have e: "utf8_encode_code_point c = [b1, b2, b3]"
      using 3 by (simp add: utf8_encode_code_point_def dg(1,2,3) b1_def b2_def b3_def)
    have "utf8_start (b1 # b2 # b3 # bs)
        = utf8_decoder q 0 2 (if q = 0 then 0xA0 else 0x80) (if q = 13 then 0x9F else 0xBF)
            (b2 # b3 # bs)"
      using u1 dg(4) by (rule decoder_lead3)
    also have "\<dots> = utf8_decoder (q * 64 + m) (Suc 0) 2 0x80 0xBF (b3 # bs)"
      using u2 dg(5) by (rule decoder_continue) (use dg(5,8,9) in auto)
    also have "\<dots> = ((q * 64 + m) * 64 + r) # utf8_start bs"
      using u3 dg(6) by (rule decoder_last) (use dg(6) in simp_all)
    finally show ?thesis
      by (simp only: e append_Cons append_Nil dg(7))
  next
    case 4
    then obtain q m n r where dg: "c div 262144 = q" "c div 4096 mod 64 = m"
      "c div 64 mod 64 = n" "c mod 64 = r" "q \<le> 4" "m < 64" "n < 64" "r < 64"
      "((q * 64 + m) * 64 + n) * 64 + r = c" "q = 0 \<longrightarrow> 16 \<le> m" "q = 4 \<longrightarrow> m < 16"
      using lt by (rule encode4_digits)
    define b1 :: byte where "b1 = word_of_nat (0xF0 + q)"
    define b2 :: byte where "b2 = word_of_nat (0x80 + m)"
    define b3 :: byte where "b3 = word_of_nat (0x80 + n)"
    define b4 :: byte where "b4 = word_of_nat (0x80 + r)"
    have u1: "unat b1 = 0xF0 + q"
      unfolding b1_def using dg(5) by (intro unat_byte) simp
    have u2: "unat b2 = 0x80 + m"
      unfolding b2_def using dg(6) by (intro unat_byte) simp
    have u3: "unat b3 = 0x80 + n"
      unfolding b3_def using dg(7) by (intro unat_byte) simp
    have u4: "unat b4 = 0x80 + r"
      unfolding b4_def using dg(8) by (intro unat_byte) simp
    have e: "utf8_encode_code_point c = [b1, b2, b3, b4]"
      using 4 by (simp add: utf8_encode_code_point_def dg(1,2,3,4) b1_def b2_def b3_def b4_def)
    have "utf8_start (b1 # b2 # b3 # b4 # bs)
        = utf8_decoder q 0 3 (if q = 0 then 0x90 else 0x80) (if q = 4 then 0x8F else 0xBF)
            (b2 # b3 # b4 # bs)"
      using u1 dg(5) by (rule decoder_lead4)
    also have "\<dots> = utf8_decoder (q * 64 + m) (Suc 0) 3 0x80 0xBF (b3 # b4 # bs)"
      using u2 dg(6) by (rule decoder_continue) (use dg(6,10,11) in auto)
    also have "\<dots> = utf8_decoder ((q * 64 + m) * 64 + n) (Suc (Suc 0)) 3 0x80 0xBF (b4 # bs)"
      using u3 dg(7) by (rule decoder_continue) (use dg(7) in simp_all)
    also have "\<dots> = (((q * 64 + m) * 64 + n) * 64 + r) # utf8_start bs"
      using u4 dg(8) by (rule decoder_last) (use dg(8) in simp_all)
    finally show ?thesis
      by (simp only: e append_Cons append_Nil dg(9))
  qed
qed

lemma utf8_decode_encode:
  "list_all is_scalar_value cs \<Longrightarrow>
     utf8_decode (concat (map utf8_encode_code_point cs)) = cs"
proof (induction cs)
  case Nil
  show ?case by (simp add: utf8_decode_def)
next
  case (Cons c cs)
  then show ?case
    by (simp add: utf8_decode_def decode_encoded_code_point)
qed

lemma surrogate_unat:
  "is_lead_surrogate u \<longleftrightarrow> 0xD800 \<le> unat u \<and> unat u \<le> 0xDBFF"
  "is_trail_surrogate u \<longleftrightarrow> 0xDC00 \<le> unat u \<and> unat u \<le> 0xDFFF"
  by (simp_all add: is_lead_surrogate_def is_trail_surrogate_def word_le_nat_alt)

lemma single_code_unit:
  assumes "\<not> is_lead_surrogate u" and "\<not> is_trail_surrogate u"
  shows "is_scalar_value (unat u)" and "from_code_point (unat u) = [u]"
proof -
  have b: "unat u < 0x10000"
    using code_unit_bound [of u] by simp
  show "is_scalar_value (unat u)"
    using assms b unfolding surrogate_unat is_scalar_value_def by linarith
  show "from_code_point (unat u) = [u]"
    using b by (simp add: from_code_point_def)
qed

lemma surrogate_pair:
  assumes "is_lead_surrogate u" and "is_trail_surrogate v"
  defines "c \<equiv> 0x10000 + (unat u - 0xD800) * 0x400 + (unat v - 0xDC00)"
  shows "is_scalar_value c" and "from_code_point c = [u, v]" and "0x10000 \<le> c"
proof -
  define h where "h = unat u - 0xD800"
  define l where "l = unat v - 0xDC00"
  have h: "h < 0x400" and uh: "0xD800 + h = unat u"
    using assms(1) unfolding surrogate_unat h_def by linarith+
  have l: "l < 0x400" and vl: "0xDC00 + l = unat v"
    using assms(2) unfolding surrogate_unat l_def by linarith+
  have c: "c = 0x10000 + (h * 0x400 + l)"
    by (simp add: c_def h_def l_def)
  show "0x10000 \<le> c"
    by (simp add: c)
  have "c < 0x110000"
    using h l unfolding c by linarith
  then show "is_scalar_value c"
    using c by (simp add: is_scalar_value_def)
  have "(h * 0x400 + l) div 0x400 = h" and "(h * 0x400 + l) mod 0x400 = l"
    using l by simp_all
  then have "from_code_point c = [word_of_nat (0xD800 + h), word_of_nat (0xDC00 + l)]"
    unfolding from_code_point_def c by (simp del: of_nat_add)
  then show "from_code_point c = [u, v]"
    by (simp only: uh vl) simp
qed

lemma scalar_values_well_formed:
  "well_formed_utf16 s \<Longrightarrow>
     list_all is_scalar_value (to_scalar_values s)
     \<and> concat (map from_code_point (to_scalar_values s)) = s"
proof (induction s rule: well_formed_utf16.induct)
  case 1
  show ?case by simp
next
  case (2 u)
  then show ?case by (simp add: single_code_unit)
next
  case (3 u v r)
  show ?case
  proof (cases "is_lead_surrogate u \<and> is_trail_surrogate v")
    case True
    with 3 have "list_all is_scalar_value (to_scalar_values r)
        \<and> concat (map from_code_point (to_scalar_values r)) = r"
      by simp
    with True show ?thesis
      by (simp add: surrogate_pair)
  next
    case False
    with "3.prems" have n: "\<not> is_lead_surrogate u" "\<not> is_trail_surrogate u"
      and w: "well_formed_utf16 (v # r)"
      by simp_all
    from "3.IH"(2) [OF False w] n False show ?thesis
      by (simp add: single_code_unit)
  qed
qed

lemma no_bom:
  assumes "well_formed_utf16 s" and "s = [] \<or> hd s \<noteq> 0xFEFF"
  shows "strip_bom (to_scalar_values s) = to_scalar_values s"
proof (cases s rule: well_formed_utf16.cases)
  case 1
  then show ?thesis by (simp add: strip_bom_def)
next
  case (2 u)
  with assms have "unat u \<noteq> 0xFEFF"
    by (auto simp: word_unat_eq_iff)
  with 2 assms(1) show ?thesis
    by (simp add: strip_bom_def)
next
  case (3 u v r)
  show ?thesis
  proof (cases "is_lead_surrogate u \<and> is_trail_surrogate v")
    case True
    then have "0x10000 \<le> 0x10000 + (unat u - 0xD800) * 0x400 + (unat v - 0xDC00)"
      by simp
    with True 3 show ?thesis
      by (simp add: strip_bom_def)
  next
    case False
    from 3 assms have "unat u \<noteq> 0xFEFF"
      by (auto simp: word_unat_eq_iff)
    with False 3 assms(1) show ?thesis
      by (simp add: strip_bom_def REPLACEMENT_def)
  qed
qed

lemma TextDecoder_TextEncoder:
  assumes "well_formed_utf16 s" and "s = [] \<or> hd s \<noteq> 0xFEFF"
  shows "TextDecoder_decode (TextEncoder_encode s) = s"
proof -
  from assms(1) have v: "list_all is_scalar_value (to_scalar_values s)"
    and c: "concat (map from_code_point (to_scalar_values s)) = s"
    by (simp_all add: scalar_values_well_formed)
  from v have "utf8_decode (TextEncoder_encode s) = to_scalar_values s"
    unfolding TextEncoder_encode_def by (rule utf8_decode_encode)
  then show ?thesis
    by (simp add: TextDecoder_decode_def no_bom [OF assms] c)
qed

lemma encodeShaderForUrl_total:
  "encodeShaderForUrl s =
     Inr (replace_all 0x2F 0x5F (replace_all 0x2B 0x2D (base64_encode (TextEncoder_encode s))))"
  by (simp add: encodeShaderForUrl_def btoa_binary)

lemma utf8_encode_code_point_nonempty: "utf8_encode_code_point c \<noteq> []"
  by (simp add: utf8_encode_code_point_def)

lemma to_scalar_values_nonempty: "s \<noteq> [] \<Longrightarrow> to_scalar_values s \<noteq> []"
  by (cases s rule: to_scalar_values.cases) simp_all

lemma TextEncoder_encode_nonempty: "s \<noteq> [] \<Longrightarrow> TextEncoder_encode s \<noteq> []"
  using to_scalar_values_nonempty [of s]
  by (cases "to_scalar_values s") (simp_all add: TextEncoder_encode_def utf8_encode_code_point_nonempty)

lemma base64_encode_nonempty: "bs \<noteq> [] \<Longrightarrow> base64_encode bs \<noteq> []"
  by (cases bs rule: base64_encode.cases) simp_all

lemma getShaderFromUrl_token:
  assumes "bs \<noteq> []"
  shows "getShaderFromUrl (location_hash_of
      (replace_all 0x2F 0x5F (replace_all 0x2B 0x2D (base64_encode bs))))
    = Some (TextDecoder_decode bs)"
proof -
  define tok where "tok = replace_all 0x2F 0x5F (replace_all 0x2B 0x2D (base64_encode bs))"
  have ne: "tok \<noteq> []"
    using base64_encode_nonempty [OF assms] by (simp add: tok_def replace_all_def)
  then have "slice_from (location_hash_of tok) 1 = tok"
    by (simp add: location_hash_of_def slice_from_def clamp_index_def)
  moreover have "atob (replace_all 0x5F 0x2F (replace_all 0x2D 0x2B tok))
      = Inr (map fromCharCode bs)"
    by (simp only: tok_def replace_roundtrip atob_base64_encode)
  moreover have "map to_uint8 (map fromCharCode bs) = bs"
    by (simp add: to_uint8_fromCharCode comp_def)
  ultimately show ?thesis
    using ne by (simp add: getShaderFromUrl_def Let_def flip: tok_def)
qed

lemma decode_encode:
  assumes "s \<noteq> []" and "well_formed_utf16 s" and "hd s \<noteq> 0xFEFF"
  shows "\<exists>tok. encodeShaderForUrl s = Inr tok \<and> getShaderFromUrl (location_hash_of tok) = Some s"
proof -
  have "TextDecoder_decode (TextEncoder_encode s) = s"
    using assms by (intro TextDecoder_TextEncoder) simp_all
  then show ?thesis
    using getShaderFromUrl_token [OF TextEncoder_encode_nonempty [OF assms(1)]]
    by (simp add: encodeShaderForUrl_total)
qed

section \<open>The claims about the codec\<close>

lemmas codec_eval =
  encodeShaderForUrl_def getShaderFromUrl_def TextEncoder_encode_def TextDecoder_decode_def
  utf8_encode_code_point_def utf8_decode_def from_code_point_def strip_bom_def
  btoa_def atob_def replace_all_def location_hash_of_def slice_from_def clamp_index_def
  is_lead_surrogate_def is_trail_surrogate_def REPLACEMENT_def fromCharCode_def to_uint8_def
  base64_char_def base64_index_def PAD_def is_ascii_whitespace_def strip_padding_def
  js_def Let_def suffix_def base64_of_hash_def

text \<open>
  C1, as stated for every text, fails in three ways: the empty text encodes to the
  empty token, which \<open>getShaderFromUrl\<close> reports as invalid; an unpaired surrogate
  is encoded as U+FFFD; a leading U+FEFF is removed by the decoder as a byte order
  mark.
\<close>

theorem decode_encode_not_identity:
  "encodeShaderForUrl [] = Inr []
   \<and> getShaderFromUrl (location_hash_of []) = None
   \<and> encodeShaderForUrl [0xD800] = Inr (js ''77-9'')
   \<and> getShaderFromUrl (location_hash_of (js ''77-9'')) = Some [0xFFFD]
   \<and> encodeShaderForUrl [0xFEFF, 0x61] = Inr (js ''77u_YQ=='')
   \<and> getShaderFromUrl (location_hash_of (js ''77u_YQ=='')) = Some [0x61]"
proof (intro conjI)
  show "encodeShaderForUrl [] = Inr []"
    by (simp add: codec_eval)
  show "getShaderFromUrl (location_hash_of []) = None"
    by (simp add: codec_eval)
  show "encodeShaderForUrl [0xD800] = Inr (js ''77-9'')"
    by (simp add: codec_eval)
  show "getShaderFromUrl (location_hash_of (js ''77-9'')) = Some [0xFFFD]"
    by (simp add: codec_eval)
  show "encodeShaderForUrl [0xFEFF, 0x61] = Inr (js ''77u_YQ=='')"
    by (simp add: codec_eval)
  show "getShaderFromUrl (location_hash_of (js ''77u_YQ=='')) = Some [0x61]"
    by (simp add: codec_eval)
qed

text \<open>
  C1, amended. For every non-empty text without unpaired surrogates that does not
  start with U+FEFF, the encoder returns a token (it never throws), and decoding the
  hash that holds this token returns the text.
\<close>

theorem decode_encode_roundtrip:
  assumes "t \<noteq> []" and "well_formed_utf16 t" and "hd t \<noteq> 0xFEFF"
  shows "\<exists>token. encodeShaderForUrl t = Inr token
           \<and> getShaderFromUrl (location_hash_of token) = Some t"
  using assms by (rule decode_encode)

theorem decode_encode_roundtrip_witness:
  "[0x20AC, 0xD83D, 0xDE00, 0x61] \<noteq> ([] :: jsstring)
   \<and> well_formed_utf16 [0x20AC, 0xD83D, 0xDE00, 0x61]
   \<and> hd [0x20AC, 0xD83D, 0xDE00, 0x61] \<noteq> (0xFEFF :: code_unit)
   \<and> (\<exists>token. encodeShaderForUrl [0x20AC, 0xD83D, 0xDE00, 0x61] = Inr token
         \<and> getShaderFromUrl (location_hash_of token) = Some [0x20AC, 0xD83D, 0xDE00, 0x61])"
proof -
  have 1: "[0x20AC, 0xD83D, 0xDE00, 0x61] \<noteq> ([] :: jsstring)"
    by simp
  have 2: "well_formed_utf16 [0x20AC, 0xD83D, 0xDE00, 0x61]"
    by (simp add: is_lead_surrogate_def is_trail_surrogate_def)
  have 3: "hd [0x20AC, 0xD83D, 0xDE00, 0x61] \<noteq> (0xFEFF :: code_unit)"
    by simp
  from decode_encode_roundtrip [OF 1 2 3] 1 2 3 show ?thesis
    by blast
qed

lemma valid_utf8_encode:
  "list_all is_scalar_value cs \<Longrightarrow> valid_utf8 (concat (map utf8_encode_code_point cs))"
  by (simp add: valid_utf8_def utf8_decode_encode)

lemma getShaderFromUrl_None_iff:
  "getShaderFromUrl h = None \<longleftrightarrow>
     slice_from h 1 = [] \<or> atob (base64_of_hash h) = Inl InvalidCharacterError"
proof (cases "atob (base64_of_hash h)")
  case (Inl e)
  then show ?thesis
    by (cases e) (simp add: getShaderFromUrl_def base64_of_hash_def Let_def)
next
  case (Inr b)
  then show ?thesis
    by (simp add: getShaderFromUrl_def base64_of_hash_def Let_def)
qed

lemma indices_None: "u \<in> set d \<Longrightarrow> base64_index u = None \<Longrightarrow> indices d = None"
  by (induction d) (auto split: option.splits)

lemma strip_padding_keeps:
  assumes "u \<in> set d" and "u \<noteq> PAD"
  shows "u \<in> set (strip_padding d)"
proof -
  have k: "u \<in> set (take (length d - n) d)" if "suffix (replicate n PAD) d" for n
  proof -
    from that obtain p where d: "d = p @ replicate n PAD"
      by (auto simp: suffix_def)
    then have "take (length d - n) d = p"
      by simp
    moreover have "u \<in> set p"
      using assms d by auto
    ultimately show ?thesis by simp
  qed
  have "u \<in> set (take (length d - 2) d)" if "suffix [PAD, PAD] d"
    using k [of 2] that by (simp add: numeral_2_eq_2)
  moreover have "u \<in> set (take (length d - 1) d)" if "suffix [PAD] d"
    using k [of 1] that by simp
  ultimately show ?thesis
    using assms(1) by (simp add: strip_padding_def)
qed

lemma atob_rejects:
  assumes "u \<in> set s" and "base64_index u = None" and "u \<noteq> PAD" and "\<not> is_ascii_whitespace u"
  shows "atob s = Inl InvalidCharacterError"
proof -
  have "u \<in> set (filter (\<lambda>u. \<not> is_ascii_whitespace u) s)"
    using assms(1,4) by simp
  then have "u \<in> set (strip_padding (filter (\<lambda>u. \<not> is_ascii_whitespace u) s))"
    using assms(3) by (rule strip_padding_keeps)
  then have "indices (strip_padding (filter (\<lambda>u. \<not> is_ascii_whitespace u) s)) = None"
    using assms(2) by (rule indices_None)
  then show ?thesis
    by (simp add: atob_def Let_def)
qed

lemma not_accepted_char:
  assumes "\<not> is_accepted_char u"
  shows "base64_index u = None" and "u \<noteq> PAD" and "\<not> is_ascii_whitespace u"
    and "u \<noteq> 0x2D" and "u \<noteq> 0x5F"
  using assms
  by (auto simp: is_accepted_char_def is_base64url_char_def base64_index_def)

lemma rejected_char:
  assumes "u \<in> set (slice_from h 1)" and "\<not> is_accepted_char u"
  shows "atob (base64_of_hash h) = Inl InvalidCharacterError"
proof -
  have "(if (if u = 0x2D then 0x2B else u) = 0x5F then 0x2F else (if u = 0x2D then 0x2B else u)) = u"
    using not_accepted_char(4,5) [OF assms(2)] by simp
  then have "u \<in> set (base64_of_hash h)"
    using assms(1) by (force simp: base64_of_hash_def replace_all_def)
  then show ?thesis
    using not_accepted_char(1,2,3) [OF assms(2)] by (rule atob_rejects)
qed

text \<open>
  C5, as stated, fails: a token with \<open>/\<close> is not base64url, yet it is decoded.
\<close>

theorem getShaderFromUrl_accepts_plain_base64:
  "\<not> is_base64url_char 0x2F \<and> 0x2F \<in> set (js ''Pz8/'')
   \<and> getShaderFromUrl (js ''#Pz8/'') = Some (js ''???'')"
  by (simp add: codec_eval is_base64url_char_def)

text \<open>
  C5, amended. The empty hash and the hash \<open>#\<close> are invalid; so is every hash whose
  token \<open>atob\<close> rejects after the substitution, in particular every token with a
  character that is neither of base64url nor \<open>+\<close>, \<open>/\<close>, \<open>=\<close> or ASCII whitespace.
  The result is \<open>None\<close>, never an exception: the only throwing call is inside the
  \<open>try\<close> block.
\<close>

theorem getShaderFromUrl_invalid:
  "getShaderFromUrl [] = None
   \<and> getShaderFromUrl (js ''#'') = None
   \<and> (atob (base64_of_hash h) = Inl InvalidCharacterError \<longrightarrow> getShaderFromUrl h = None)
   \<and> ((\<exists>u \<in> set (slice_from h 1). \<not> is_accepted_char u) \<longrightarrow> getShaderFromUrl h = None)"
proof (intro conjI impI)
  show "getShaderFromUrl [] = None"
    by (simp add: codec_eval)
  show "getShaderFromUrl (js ''#'') = None"
    by (simp add: codec_eval)
  show "getShaderFromUrl h = None" if "atob (base64_of_hash h) = Inl InvalidCharacterError"
    using that by (simp add: getShaderFromUrl_None_iff)
  show "getShaderFromUrl h = None" if "\<exists>u \<in> set (slice_from h 1). \<not> is_accepted_char u"
    using that rejected_char [of _ h] by (auto simp: getShaderFromUrl_None_iff)
qed

theorem getShaderFromUrl_invalid_witness:
  "atob (base64_of_hash (js ''#abcde'')) = Inl InvalidCharacterError
   \<and> getShaderFromUrl (js ''#abcde'') = None
   \<and> (\<exists>u \<in> set (slice_from (js ''#a%b'') 1). \<not> is_accepted_char u)
   \<and> getShaderFromUrl (js ''#a%b'') = None"
proof -
  have 1: "atob (base64_of_hash (js ''#abcde'')) = Inl InvalidCharacterError"
    by (simp add: codec_eval)
  have 2: "\<exists>u \<in> set (slice_from (js ''#a%b'') 1). \<not> is_accepted_char u"
    by (simp add: codec_eval is_accepted_char_def is_base64url_char_def)
  from getShaderFromUrl_invalid [of "js ''#abcde''"] getShaderFromUrl_invalid [of "js ''#a%b''"] 1 2
  show ?thesis by blast
qed

text \<open>
  C10. The token \<open>_w==\<close> is not empty and is base64 for the byte 0xFF, which is not
  valid UTF-8; it decodes to the text U+FFFD. \<open>getShaderFromUrl\<close> returns \<open>None\<close>
  only when the token is empty or \<open>atob\<close> fails.
\<close>

theorem getShaderFromUrl_replaces_ill_formed_bytes:
  "js ''_w=='' \<noteq> []
   \<and> atob (base64_of_hash (js ''#_w=='')) = Inr [0xFF]
   \<and> \<not> valid_utf8 [0xFF]
   \<and> getShaderFromUrl (js ''#_w=='') = Some [0xFFFD]
   \<and> (getShaderFromUrl h = None \<longrightarrow>
        slice_from h 1 = [] \<or> atob (base64_of_hash h) = Inl InvalidCharacterError)"
proof (intro conjI)
  show "js ''_w=='' \<noteq> []"
    by (simp add: js_def)
  show "atob (base64_of_hash (js ''#_w=='')) = Inr [0xFF]"
    by (simp add: codec_eval)
  show "\<not> valid_utf8 [0xFF]"
    by (simp add: valid_utf8_def codec_eval)
  show "getShaderFromUrl (js ''#_w=='') = Some [0xFFFD]"
    by (simp add: codec_eval)
  show "getShaderFromUrl h = None \<longrightarrow>
      slice_from h 1 = [] \<or> atob (base64_of_hash h) = Inl InvalidCharacterError"
    by (simp add: getShaderFromUrl_None_iff)
qed

theorem getShaderFromUrl_replaces_ill_formed_bytes_witness:
  "getShaderFromUrl (js ''#%'') = None
   \<and> slice_from (js ''#%'') 1 \<noteq> []
   \<and> atob (base64_of_hash (js ''#%'')) = Inl InvalidCharacterError"
proof -
  have 1: "getShaderFromUrl (js ''#%'') = None"
    by (simp add: codec_eval)
  have 2: "slice_from (js ''#%'') 1 \<noteq> []"
    by (simp add: codec_eval)
  from getShaderFromUrl_replaces_ill_formed_bytes [of "js ''#%''"] 1 2 show ?thesis
    by blast
qed

section \<open>Palette padding\<close>

lemma pad_from_length: "length (pad_from palette i n colors visible) = n"
  by (induction n arbitrary: i colors visible) simp_all

lemma pad_from_nth:
  "k < n \<Longrightarrow>
     pad_from palette i n colors visible ! k =
       (if k < length visible \<and> visible ! k
        then (if k < length colors then colors ! k else palette (i + k))
        else black)"
proof (induction n arbitrary: i colors visible k)
  case 0
  then show ?case by simp
next
  case (Suc n)
  show ?case
  proof (cases k)
    case 0
    then show ?thesis
      by (cases visible; cases colors) simp_all
  next
    case (Suc j)
    with Suc.prems have "j < n" by simp
    from Suc.IH [OF this, of "Suc i" "tl colors" "tl visible"] Suc show ?thesis
      by (cases visible; cases colors) simp_all
  qed
qed

text \<open>
  C4. Whatever colours and mask are supplied, \<open>padColors\<close> returns six triples: a
  visible position holds the supplied colour of that position, or the palette entry of
  its index when none is supplied; every other position is black. The colours that
  \<open>draw\<close> hands to the pipeline are such a result, so they are six as well.
\<close>

theorem padColors_six:
  "length (padColors palette colors channelsVisible) = 6
   \<and> (\<forall>i<6. padColors palette colors channelsVisible ! i =
         (if i < length channelsVisible \<and> channelsVisible ! i
          then (if i < length colors then colors ! i else palette i)
          else black))
   \<and> length (draw_paddedColors palette getDefaultPalette supplied visible selections) = 6"
  by (simp add: draw_paddedColors_def padColors_def MAX_CHANNELS_def pad_from_length pad_from_nth)

theorem padColors_six_witness:
  "length (padColors (\<lambda>i. (255, i, 0)) [(1, 2, 3), (4, 5, 6)] [True, True, True]) = 6
   \<and> padColors (\<lambda>i. (255, i, 0)) [(1, 2, 3), (4, 5, 6)] [True, True, True] ! 1 = (4, 5, 6)
   \<and> padColors (\<lambda>i. (255, i, 0)) [(1, 2, 3), (4, 5, 6)] [True, True, True] ! 2 = (255, 2, 0)
   \<and> padColors (\<lambda>i. (255, i, 0)) [(1, 2, 3), (4, 5, 6)] [True, True, True] ! 3 = black"
  using padColors_six [of "\<lambda>i. (255, i, 0)" "[(1, 2, 3), (4, 5, 6)]" "[True, True, True]"]
  by simp

section \<open>Properties of the page\<close>

lemma token_chars:
  assumes "v \<in> set (replace_all 0x2F 0x5F (replace_all 0x2B 0x2D (base64_encode bs)))"
  shows "v \<noteq> 0x23"
proof -
  from assms obtain u where u: "u \<in> set (base64_encode bs)"
    and v: "v = (if (if u = 0x2B then 0x2D else u) = 0x2F then 0x5F else (if u = 0x2B then 0x2D else u))"
    by (auto simp: replace_all_def)
  from u consider "u \<in> set (map base64_char (sextets bs))" | "u = PAD"
    by (auto simp: base64_encode_sextets padding_def)
  then have "u \<noteq> 0x23"
  proof cases
    case 1
    then have "base64_index u \<noteq> None"
      by (rule indices_member [OF indices_sextets])
    then show ?thesis
      by (auto simp: base64_index_def)
  next
    case 2
    then show ?thesis by (simp add: PAD_def)
  qed
  with v show ?thesis
    by (simp split: if_splits)
qed

lemma token_hash:
  assumes "encodeShaderForUrl s = Inr encoded" and "s \<noteq> []"
  shows "location_hash (set_location_hash encoded l) = 0x23 # encoded"
proof -
  have e: "encoded = replace_all 0x2F 0x5F (replace_all 0x2B 0x2D (base64_encode (TextEncoder_encode s)))"
    using assms(1) by (simp add: encodeShaderForUrl_total)
  have "base64_encode (TextEncoder_encode s) \<noteq> []"
    using assms(2) by (intro base64_encode_nonempty TextEncoder_encode_nonempty)
  then have ne: "encoded \<noteq> []"
    by (simp add: e replace_all_def)
  then obtain c r where cr: "encoded = c # r"
    by (cases encoded) auto
  then have "c \<in> set encoded" by simp
  then have "c \<noteq> 0x23"
    unfolding e by (rule token_chars)
  then show ?thesis
    by (simp add: location_hash_def set_location_hash_def location_hash_of_def cr)
qed

lemma fragmentShader_text_nonempty: "fragmentShader_text \<noteq> []"
  by (simp add: fragmentShader_text_def)

termination main
proof (relation "measure (\<lambda>b. if location_hash (loc b) = [] then 1 else 0)")
  show "wf (measure (\<lambda>b. if location_hash (loc b) = [] then 1 else 0))"
    by simp
next
  fix b :: browser and encoded
  assume "location_hash (loc b) = []" and "encodeShaderForUrl fragmentShader_text = Inr encoded"
  then show "(b\<lparr>loc := set_location_hash encoded (loc b), reloads := Suc (reloads b), view := Booting\<rparr>, b)
      \<in> measure (\<lambda>b. if location_hash (loc b) = [] then 1 else 0)"
    by (simp add: token_hash [OF _ fragmentShader_text_nonempty])
qed

declare main.simps [simp del]

lemma main_with_hash: "location_hash (loc b) \<noteq> [] \<Longrightarrow> main b = App b"
  by (subst main.simps) simp

lemma main_without_hash:
  assumes "location_hash (loc b) = []" and "encodeShaderForUrl fragmentShader_text = Inr encoded"
  shows "main b = App (b\<lparr>loc := set_location_hash encoded (loc b), reloads := Suc (reloads b),
                          view := Booting\<rparr>)"
proof -
  have "location_hash (set_location_hash encoded (loc b)) \<noteq> []"
    by (simp add: token_hash [OF assms(2) fragmentShader_text_nonempty])
  then have "main (b\<lparr>loc := set_location_hash encoded (loc b), reloads := Suc (reloads b), view := Booting\<rparr>)
      = App (b\<lparr>loc := set_location_hash encoded (loc b), reloads := Suc (reloads b), view := Booting\<rparr>)"
    by (intro main_with_hash) simp
  then show ?thesis
    using assms by (subst main.simps) simp
qed

lemma below_not_surrogate:
  assumes "u < 0xD800"
  shows "\<not> is_lead_surrogate u" and "\<not> is_trail_surrogate u"
  using assms
  by (simp_all add: is_lead_surrogate_def is_trail_surrogate_def word_less_nat_alt word_le_nat_alt)

lemma well_formed_below: "(\<And>u. u \<in> set s \<Longrightarrow> u < 0xD800) \<Longrightarrow> well_formed_utf16 s"
proof (induction s rule: well_formed_utf16.induct)
  case 1
  show ?case by simp
next
  case (2 u)
  from "2" [of u] show ?case
    by (simp add: below_not_surrogate)
next
  case (3 u v r)
  from "3.prems" [of u] have u: "\<not> is_lead_surrogate u" "\<not> is_trail_surrogate u"
    by (simp_all add: below_not_surrogate)
  then have "well_formed_utf16 (v # r)"
    using "3.IH"(2) "3.prems" by simp
  with u show ?case by simp
qed

lemma of_char_bound: "(of_char c :: nat) < 256"
proof -
  have "(of_char c :: nat) mod 256 < 256" by simp
  then show ?thesis by (simp only: of_char_mod_256)
qed

lemma js_below: "u \<in> set (js s) \<Longrightarrow> u < 0x100"
proof -
  assume "u \<in> set (js s)"
  then obtain c where "u = word_of_nat (of_char c)"
    by (auto simp: js_def)
  moreover have "unat (word_of_nat (of_char c) :: code_unit) = of_char c"
    by (rule unat_code_unit) (use of_char_bound [of c] in linarith)
  ultimately show ?thesis
    using of_char_bound [of c] by (simp add: word_less_nat_alt)
qed

lemma js_lines_below: "u \<in> set (js_lines ls) \<Longrightarrow> u < 0x100"
  by (auto simp: js_lines_def LF_def dest: js_below split: if_splits)

lemma fragmentShader_text_below: "u \<in> set fragmentShader_text \<Longrightarrow> u < 0x100"
  unfolding fragmentShader_text_def fs_def apply_transparent_color_def DECKGL_MUTATE_COLOR_def
  by (auto simp: LF_def dest: js_below js_lines_below)

lemma fragmentShader_text_well_formed: "well_formed_utf16 fragmentShader_text"
proof (rule well_formed_below)
  fix u assume "u \<in> set fragmentShader_text"
  then have "u < 0x100" by (rule fragmentShader_text_below)
  then show "u < 0xD800"
    by (simp add: word_less_nat_alt)
qed

lemma fragmentShader_text_no_bom: "hd fragmentShader_text \<noteq> 0xFEFF"
proof -
  have "hd fragmentShader_text \<in> set fragmentShader_text"
    using fragmentShader_text_nonempty by simp
  then have "hd fragmentShader_text < 0x100"
    by (rule fragmentShader_text_below)
  then show ?thesis
    by (auto simp: word_less_nat_alt)
qed

lemma default_decodes:
  assumes "encodeShaderForUrl fragmentShader_text = Inr encoded"
  shows "getShaderFromUrl (0x23 # encoded) = Some fragmentShader_text"
proof -
  obtain tok where t: "encodeShaderForUrl fragmentShader_text = Inr tok"
    and d: "getShaderFromUrl (location_hash_of tok) = Some fragmentShader_text"
    using decode_encode [OF fragmentShader_text_nonempty fragmentShader_text_well_formed
        fragmentShader_text_no_bom] by blast
  from t assms have e: "tok = encoded" by simp
  have "location_hash (set_location_hash encoded l) = 0x23 # encoded" for l
    using assms fragmentShader_text_nonempty by (rule token_hash)
  then have "encoded \<noteq> []"
    by (auto simp: location_hash_def set_location_hash_def location_hash_of_def)
  with d e show ?thesis
    by (simp add: location_hash_of_def)
qed

lemma App_valid:
  assumes "getShaderFromUrl (location_hash (loc b)) = Some s" and "s \<noteq> []"
  shows "App b = b\<lparr>view := Mounted (initial_app s)\<rparr>"
  using assms by (simp add: App_def)

lemma App_invalid:
  assumes "getShaderFromUrl (location_hash (loc b)) = None
      \<or> getShaderFromUrl (location_hash (loc b)) = Some []"
    and "encodeShaderForUrl fragmentShader_text = Inr encoded"
  shows "App b = b\<lparr>loc := location_replace_fragment encoded (loc b), view := Placeholder\<rparr>"
  using assms by (auto simp: App_def redirect_to_default_def)

lemma visit_without_fragment:
  assumes "fragment l = []"
  shows "\<exists>encoded. encodeShaderForUrl fragmentShader_text = Inr encoded
     \<and> visit l c = \<lparr>loc = l\<lparr>fragment := encoded\<rparr>, reloads = 1,
          view = Mounted (initial_app fragmentShader_text), clipboard = c\<rparr>"
proof -
  obtain encoded where e: "encodeShaderForUrl fragmentShader_text = Inr encoded"
    by (simp add: encodeShaderForUrl_total)
  define b where "b = \<lparr>loc = l, reloads = 0, view = Booting, clipboard = c\<rparr>"
  define b' where "b' = b\<lparr>loc := set_location_hash encoded (loc b), reloads := Suc (reloads b),
      view := Booting\<rparr>"
  have h: "location_hash (loc b') = 0x23 # encoded"
    by (simp add: b'_def token_hash [OF e fragmentShader_text_nonempty])
  then have f: "fragment (loc b') = encoded"
    by (auto simp: location_hash_def location_hash_of_def split: if_splits)
  have "location_hash (loc b) = []"
    using assms by (simp add: b_def location_hash_def location_hash_of_def)
  then have "main b = App b'"
    unfolding b'_def using e by (rule main_without_hash)
  also have "\<dots> = b'\<lparr>view := Mounted (initial_app fragmentShader_text)\<rparr>"
    by (rule App_valid) (simp_all add: h default_decodes [OF e] fragmentShader_text_nonempty)
  also have "\<dots> = \<lparr>loc = l\<lparr>fragment := encoded\<rparr>, reloads = 1,
      view = Mounted (initial_app fragmentShader_text), clipboard = c\<rparr>"
    using f by (simp add: b'_def b_def set_location_hash_def)
  finally show ?thesis
    using e by (simp add: visit_def b_def)
qed

lemma visit_invalid_fragment:
  assumes "fragment l \<noteq> []"
    and "getShaderFromUrl (location_hash l) = None \<or> getShaderFromUrl (location_hash l) = Some []"
  shows "\<exists>encoded. encodeShaderForUrl fragmentShader_text = Inr encoded
     \<and> visit l c = \<lparr>loc = l\<lparr>fragment := encoded\<rparr>, reloads = 0, view = Placeholder, clipboard = c\<rparr>"
proof -
  obtain encoded where e: "encodeShaderForUrl fragmentShader_text = Inr encoded"
    by (simp add: encodeShaderForUrl_total)
  define b where "b = \<lparr>loc = l, reloads = 0, view = Booting, clipboard = c\<rparr>"
  have "location_hash (loc b) \<noteq> []"
    using assms(1) by (simp add: b_def location_hash_def location_hash_of_def)
  then have "main b = App b"
    by (rule main_with_hash)
  also have "\<dots> = b\<lparr>loc := location_replace_fragment encoded (loc b), view := Placeholder\<rparr>"
    using assms(2) e by (intro App_invalid) (simp_all add: b_def)
  finally show ?thesis
    using e by (simp add: visit_def b_def location_replace_fragment_def)
qed

lemma placeholder_stuck: "view b = Placeholder \<Longrightarrow> step parse ev b = b"
  by (simp add: step_def)

section \<open>The claims about the page\<close>

text \<open>
  C7 at an undecodable fragment. The page is visited at \<open>#%\<close>: \<open>App\<close> replaces
  the address, which now holds the encoded default text, but no reload happens and the
  page shows the placeholder, where it stays whatever happens next. (For an empty
  fragment the claim holds: \<open>visit_without_fragment\<close>.)
\<close>

theorem visit_undecodable_fragment_stays_on_placeholder:
  "view (visit (sample_location (js ''%'')) None) = Placeholder
   \<and> reloads (visit (sample_location (js ''%'')) None) = 0
   \<and> getShaderFromUrl (location_hash (loc (visit (sample_location (js ''%'')) None)))
       = Some fragmentShader_text
   \<and> step sample_parse DataLoaded (visit (sample_location (js ''%'')) None)
       = visit (sample_location (js ''%'')) None
   \<and> step sample_parse Compile (visit (sample_location (js ''%'')) None)
       = visit (sample_location (js ''%'')) None"
proof -
  have "fragment (sample_location (js ''%'')) \<noteq> []"
    by (simp add: sample_location_def js_def)
  moreover have "getShaderFromUrl (location_hash (sample_location (js ''%''))) = None"
    by (simp add: sample_location_def location_hash_def codec_eval)
  ultimately obtain encoded where e: "encodeShaderForUrl fragmentShader_text = Inr encoded"
    and v: "visit (sample_location (js ''%'')) None
      = \<lparr>loc = (sample_location (js ''%''))\<lparr>fragment := encoded\<rparr>, reloads = 0,
         view = Placeholder, clipboard = None\<rparr>"
    using visit_invalid_fragment [of "sample_location (js ''%'')" None] by blast
  have "location_hash (set_location_hash encoded l) = 0x23 # encoded" for l
    using e fragmentShader_text_nonempty by (rule token_hash)
  then have "encoded \<noteq> []"
    by (auto simp: location_hash_def set_location_hash_def location_hash_of_def)
  then have "location_hash ((sample_location (js ''%''))\<lparr>fragment := encoded\<rparr>) = 0x23 # encoded"
    by (simp add: location_hash_def location_hash_of_def)
  then show ?thesis
    by (simp add: v default_decodes [OF e] placeholder_stuck)
qed






lemma encode_ok: "encodeShaderForUrl (js ''ok'') = Inr (js ''b2s='')"
  by (simp add: codec_eval)




























text \<open>
  C9. After any edit, in any state of a mounted page (whatever was compiled before),
  Copy link writes origin, path, query, \<open>#\<close> and the token of the edited text to the
  clipboard; for a text that the codec can carry, the token decodes to it.
\<close>

theorem copy_link_encodes_edit_buffer:
  assumes "view b = Mounted a"
  shows "\<exists>token. encodeShaderForUrl t = Inr token
    \<and> clipboard (step parse CopyLink (step parse (Edit t) b))
        = Some (origin (loc b) @ pathname (loc b) @ search (loc b) @ [0x23] @ token)
    \<and> (t \<noteq> [] \<and> well_formed_utf16 t \<and> hd t \<noteq> 0xFEFF \<longrightarrow>
          getShaderFromUrl (0x23 # token) = Some t)"
proof -
  obtain token where e: "encodeShaderForUrl t = Inr token"
    by (simp add: encodeShaderForUrl_total)
  have "clipboard (step parse CopyLink (step parse (Edit t) b))
      = Some (origin (loc b) @ pathname (loc b) @ search (loc b) @ [0x23] @ token)"
    using assms e by (simp add: step_def handleCopyLink_def url_with_fragment_def)
  moreover have "getShaderFromUrl (0x23 # token) = Some t"
    if "t \<noteq> []" "well_formed_utf16 t" "hd t \<noteq> 0xFEFF"
  proof -
    from decode_encode [OF that] e have "getShaderFromUrl (location_hash_of token) = Some t"
      by auto
    moreover have "location_hash (set_location_hash token l) = 0x23 # token" for l
      using e that(1) by (rule token_hash)
    then have "token \<noteq> []"
      by (auto simp: location_hash_def set_location_hash_def location_hash_of_def)
    ultimately show ?thesis
      by (simp add: location_hash_of_def)
  qed
  ultimately show ?thesis
    using e by blast
qed

theorem copy_link_encodes_edit_buffer_witness:
  "view (sample_page (js ''no'')) = Mounted (initial_app (js ''no''))
   \<and> js ''ok'' \<noteq> [] \<and> well_formed_utf16 (js ''ok'') \<and> hd (js ''ok'') \<noteq> 0xFEFF
   \<and> encodeShaderForUrl (js ''ok'') = Inr (js ''b2s='')
   \<and> clipboard (step sample_parse CopyLink (step sample_parse (Edit (js ''ok'')) (sample_page (js ''no''))))
       = Some (js ''https://example.org/?v=1#b2s='')
   \<and> getShaderFromUrl (0x23 # js ''b2s='') = Some (js ''ok'')"
proof -
  have 1: "view (sample_page (js ''no'')) = Mounted (initial_app (js ''no''))"
    by (simp add: sample_page_def initial_app_def)
  have 2: "js ''ok'' \<noteq> []" "well_formed_utf16 (js ''ok'')" "hd (js ''ok'') \<noteq> 0xFEFF"
    by (simp_all add: js_def is_lead_surrogate_def is_trail_surrogate_def)
  have 3: "origin (loc (sample_page (js ''no''))) @ pathname (loc (sample_page (js ''no'')))
      @ search (loc (sample_page (js ''no''))) @ [0x23] @ js ''b2s=''
      = js ''https://example.org/?v=1#b2s=''"
    by (simp add: sample_page_def sample_location_def js_def)
  from copy_link_encodes_edit_buffer [OF 1, of "js ''ok''" sample_parse] 2 3 encode_ok
  show ?thesis
    using 1 by auto
qed

end
